theory Spec2Isabelle
  imports Main
begin

section \<open>A shallow embedding of gdbmi.py\<close>

text \<open>
  The module \<^verbatim>\<open>gdbmi.py\<close> decodes one GDB/MI response: \<^verbatim>\<open>mi_scanner\<close> (an
  \<^verbatim>\<open>re.Scanner\<close>) cuts the text into tokens, the class \<^verbatim>\<open>MIParser\<close> is a
  recursive-descent parser over them, and \<^verbatim>\<open>parse(text, pedantic)\<close> runs one after
  the other. Every exception of the Python is a value of the type \<open>error\<close> here, and every
  function that can raise returns \<open>error + 'a\<close> with \<open>Inl\<close> for the exception.

  Texts are byte strings (\<open>string\<close>, a list of 8-bit characters): the module is Python 2
  code, where \<^verbatim>\<open>str\<close> is a byte string and \<^verbatim>\<open>decode_string\<close> turns the decoder's
  \<^verbatim>\<open>unicode\<close> result back into a native \<^verbatim>\<open>str\<close>.
\<close>

subsection \<open>Tokens, errors and parsed values\<close>

text \<open>
  A token is the pair \<^verbatim>\<open>(kind, value)\<close> that a scanner action returns; the kind is one of
  the seventeen names of the lexicon, the value an \<^verbatim>\<open>int\<close> (for \<^verbatim>\<open>TOKEN\<close>) or a string.
\<close>

datatype kind = TOKEN | NL | PROMPT | STRING | LBRACKET | RBRACKET | LBRACE | RBRACE
  | COMMA | CARET | ASTERISK | PLUS | EQUALS | TILDE | AT | AMPERSAND | CSTRING

datatype tokval = Num int | Txt string

type_synonym token = "kind \<times> tokval"

text \<open>
  The exceptions that can leave \<^verbatim>\<open>parse\<close>: the \<^verbatim>\<open>assert\<close> on the scanner's
  remainder, \<^verbatim>\<open>next\<close> on an exhausted iterator, \<^verbatim>\<open>MIParser.error\<close> with its message,
  and the two exceptions of \<^verbatim>\<open>decode_string\<close> (the codec's and that of \<^verbatim>\<open>str\<close>).
\<close>

datatype error = AssertionError | StopIteration | SyntaxError string
  | UnicodeDecodeError | UnicodeEncodeError

text \<open>
  What the grammar rules build: a token value, a Python list, or the one-entry dictionary
  \<^verbatim>\<open>{result_name: value}\<close> that \<^verbatim>\<open>_result\<close> returns.
\<close>

datatype pyval = Atom tokval | PList "pyval list" | PDict tokval pyval

text \<open>
  An out-of-band record is the 4-tuple of \<^verbatim>\<open>_async_output\<close> or the 2-tuple of
  \<^verbatim>\<open>_stream_output\<close>; a result record is the 3-tuple of \<^verbatim>\<open>_result_record\<close>.
\<close>

datatype oob_record =
    AsyncRecord "tokval option" tokval tokval "pyval list"
  | StreamRecord tokval tokval

type_synonym result_record = "tokval option \<times> tokval \<times> pyval list option"

type_synonym document = "oob_record list \<times> result_record option"

fun kind_name :: "kind \<Rightarrow> string" where
  "kind_name TOKEN = ''TOKEN''"
| "kind_name NL = ''NL''"
| "kind_name PROMPT = ''PROMPT''"
| "kind_name STRING = ''STRING''"
| "kind_name LBRACKET = ''LBRACKET''"
| "kind_name RBRACKET = ''RBRACKET''"
| "kind_name LBRACE = ''LBRACE''"
| "kind_name RBRACE = ''RBRACE''"
| "kind_name COMMA = ''COMMA''"
| "kind_name CARET = ''CARET''"
| "kind_name ASTERISK = ''ASTERISK''"
| "kind_name PLUS = ''PLUS''"
| "kind_name EQUALS = ''EQUALS''"
| "kind_name TILDE = ''TILDE''"
| "kind_name AT = ''AT''"
| "kind_name AMPERSAND = ''AMPERSAND''"
| "kind_name CSTRING = ''CSTRING''"

subsection \<open>decode\_string\<close>

text \<open>
  \<^verbatim>\<open>decode_string(string) = str(getdecoder("unicode_escape")(string)[0])\<close>.
  The codec is the interpreter's, not the module's; \<open>unicode_escape\<close> follows its
  decoder in strict mode: a character other than a backslash stands for itself, and after a
  backslash come the one-letter escapes, up to three octal digits, \<^verbatim>\<open>\x\<close>, \<^verbatim>\<open>\u\<close> and
  \<^verbatim>\<open>\U\<close> with exactly 2, 4 and 8 hexadecimal digits, \<^verbatim>\<open>\N{name}\<close>, a backslash before
  a newline (both dropped), and any other character, which is kept with its backslash.
  The table of Unicode character names behind \<^verbatim>\<open>\N{name}\<close> is the parameter \<open>ucd\<close>.
  The result is a list of code points; \<open>native_str\<close> is Python 2's \<^verbatim>\<open>str\<close> on it,
  which encodes to ASCII and raises on a code point above 127.
\<close>

definition digit :: "char \<Rightarrow> bool" where
  "digit c = (c \<in> set ''0123456789'')"

definition octdigit :: "char \<Rightarrow> bool" where
  "octdigit c = (c \<in> set ''01234567'')"

definition xdigit :: "char \<Rightarrow> bool" where
  "xdigit c = (c \<in> set ''0123456789abcdefABCDEF'')"

definition xdigit_val :: "char \<Rightarrow> int" where
  "xdigit_val c =
     (if digit c then of_char c - 48
      else if c \<in> set ''abcdef'' then of_char c - 87
      else of_char c - 55)"

definition radix_val :: "int \<Rightarrow> string \<Rightarrow> int" where
  "radix_val b ds = foldl (\<lambda>n c. b * n + xdigit_val c) 0 ds"

definition hexescape :: "nat \<Rightarrow> string \<Rightarrow> (int \<times> string) option" where
  "hexescape digits s =
     (if length s < digits \<or> \<not> list_all xdigit (take digits s) then None
      else if radix_val 16 (take digits s) > 1114111 then None
      else Some (radix_val 16 (take digits s), drop digits s))"

definition named_escape :: "(string \<Rightarrow> int option) \<Rightarrow> string \<Rightarrow> (int \<times> string) option" where
  "named_escape ucd s =
     (case s of
        [] \<Rightarrow> None
      | c # cs \<Rightarrow>
          if c \<noteq> CHR ''{'' then None
          else let name = takeWhile (\<lambda>x. x \<noteq> CHR ''}'') cs in
            if name = [] \<or> length name = length cs then None
            else (case ucd name of
                    None \<Rightarrow> None
                  | Some chr \<Rightarrow> Some (chr, drop (length name + 1) cs)))"

definition simple_escape :: "char \<Rightarrow> int option" where
  "simple_escape c =
     (if c = CHR 0x5C then Some 92
      else if c = CHR 0x27 then Some 39
      else if c = CHR 0x22 then Some 34
      else if c = CHR ''b'' then Some 8
      else if c = CHR ''f'' then Some 12
      else if c = CHR ''t'' then Some 9
      else if c = CHR ''n'' then Some 10
      else if c = CHR ''r'' then Some 13
      else if c = CHR ''v'' then Some 11
      else if c = CHR ''a'' then Some 7
      else None)"

fun emit :: "'a list \<Rightarrow> error + 'a list \<Rightarrow> error + 'a list" where
  "emit xs (Inl e) = Inl e"
| "emit xs (Inr ys) = Inr (xs @ ys)"

function unicode_escape :: "(string \<Rightarrow> int option) \<Rightarrow> string \<Rightarrow> error + int list" where
  "unicode_escape ucd [] = Inr []"
| "unicode_escape ucd (c # s) =
     (if c \<noteq> CHR 0x5C then emit [of_char c] (unicode_escape ucd s)
      else (case s of
        [] \<Rightarrow> Inl UnicodeDecodeError
      | e # s' \<Rightarrow>
          if e = CHR 0x0A then unicode_escape ucd s'
          else if simple_escape e \<noteq> None then
            emit [the (simple_escape e)] (unicode_escape ucd s')
          else if octdigit e then
            (let ds = e # takeWhile octdigit (take 2 s') in
               emit [radix_val 8 ds] (unicode_escape ucd (drop (length ds - 1) s')))
          else if e = CHR ''x'' \<or> e = CHR ''u'' \<or> e = CHR ''U'' then
            (case hexescape (if e = CHR ''x'' then 2 else if e = CHR ''u'' then 4 else 8) s' of
               None \<Rightarrow> Inl UnicodeDecodeError
             | Some (chr, rest) \<Rightarrow>
                 emit [chr] (unicode_escape ucd (drop (length s' - length rest) s')))
          else if e = CHR ''N'' then
            (case named_escape ucd s' of
               None \<Rightarrow> Inl UnicodeDecodeError
             | Some (chr, rest) \<Rightarrow>
                 emit [chr] (unicode_escape ucd (drop (length s' - length rest) s')))
          else emit [92, of_char e] (unicode_escape ucd s')))"
  by pat_completeness auto
termination
  by (relation "measure (\<lambda>(ucd, s). length s)") auto

definition native_str :: "int list \<Rightarrow> error + string" where
  "native_str u = (if list_all (\<lambda>cp. cp < 128) u then Inr (map char_of u) else Inl UnicodeEncodeError)"

definition decode_string :: "(string \<Rightarrow> int option) \<Rightarrow> string \<Rightarrow> error + string" where
  "decode_string ucd string =
     (case unicode_escape ucd string of Inl e \<Rightarrow> Inl e | Inr u \<Rightarrow> native_str u)"

subsection \<open>mi\_scanner\<close>

text \<open>
  Each regular expression of the lexicon is a function giving the length of its match at
  the start of the text, or \<open>None\<close>. All of them are deterministic: \<^verbatim>\<open>\d+\<close> and the
  identifier take the longest run; in \<^verbatim>\<open>"(?:[^"\\]|\\.)*"\<close> the two alternatives
  start with different characters, the dot does not match a newline, and the first quote
  that is not the second half of a backslash pair closes the string.
\<close>

definition re_digits :: "string \<Rightarrow> nat option" where
  "re_digits s = (let n = length (takeWhile digit s) in if n = 0 then None else Some n)"

definition re_literal :: "string \<Rightarrow> string \<Rightarrow> nat option" where
  "re_literal lit s = (if take (length lit) s = lit then Some (length lit) else None)"

definition ident_start :: "char \<Rightarrow> bool" where
  "ident_start c = (c \<in> set ''abcdefghijklmnopqrstuvwxyzABCDEFGHIJKLMNOPQRSTUVWXYZ_'')"

definition ident_char :: "char \<Rightarrow> bool" where
  "ident_char c = (ident_start c \<or> digit c \<or> c = CHR ''-'')"

definition re_identifier :: "string \<Rightarrow> nat option" where
  "re_identifier s =
     (case s of
        [] \<Rightarrow> None
      | c # cs \<Rightarrow> if ident_start c then Some (1 + length (takeWhile ident_char cs)) else None)"

fun cstring_rest :: "string \<Rightarrow> nat option" where
  "cstring_rest [] = None"
| "cstring_rest (c # cs) =
     (if c = CHR 0x22 then Some 1
      else if c = CHR 0x5C then
        (case cs of
           [] \<Rightarrow> None
         | d # ds \<Rightarrow> if d = CHR 0x0A then None else map_option (\<lambda>n. n + 2) (cstring_rest ds))
      else map_option Suc (cstring_rest cs))"

definition re_cstring :: "string \<Rightarrow> nat option" where
  "re_cstring s =
     (case s of
        [] \<Rightarrow> None
      | c # cs \<Rightarrow> if c = CHR 0x22 then map_option Suc (cstring_rest cs) else None)"

text \<open>\<^verbatim>\<open>int(t)\<close> on a run of decimal digits.\<close>

definition int_of_digits :: "string \<Rightarrow> int" where
  "int_of_digits t = radix_val 10 t"

text \<open>
  The lexicon, in the order of the source: each rule is a pattern with its action, and the
  action of the last rule decodes \<^verbatim>\<open>t[1:-1]\<close>.
\<close>

type_synonym rule = "(string \<Rightarrow> nat option) \<times> (string \<Rightarrow> error + token)"

definition mi_scanner :: "(string \<Rightarrow> int option) \<Rightarrow> rule list" where
  "mi_scanner ucd =
    [(re_digits, \<lambda>t. Inr (TOKEN, Num (int_of_digits t))),
     (re_literal ''\<newline>'', \<lambda>t. Inr (NL, Txt t)),
     (re_literal ''(gdb)'', \<lambda>t. Inr (PROMPT, Txt t)),
     (re_identifier, \<lambda>t. Inr (STRING, Txt t)),
     (re_literal ''['', \<lambda>t. Inr (LBRACKET, Txt t)),
     (re_literal '']'', \<lambda>t. Inr (RBRACKET, Txt t)),
     (re_literal ''{'', \<lambda>t. Inr (LBRACE, Txt t)),
     (re_literal ''}'', \<lambda>t. Inr (RBRACE, Txt t)),
     (re_literal '','', \<lambda>t. Inr (COMMA, Txt t)),
     (re_literal ''^'', \<lambda>t. Inr (CARET, Txt t)),
     (re_literal ''*'', \<lambda>t. Inr (ASTERISK, Txt t)),
     (re_literal ''+'', \<lambda>t. Inr (PLUS, Txt t)),
     (re_literal ''='', \<lambda>t. Inr (EQUALS, Txt t)),
     (re_literal ''~'', \<lambda>t. Inr (TILDE, Txt t)),
     (re_literal ''@'', \<lambda>t. Inr (AT, Txt t)),
     (re_literal ''&'', \<lambda>t. Inr (AMPERSAND, Txt t)),
     (re_cstring, \<lambda>t.
        (case decode_string ucd (butlast (tl t)) of
           Inl e \<Rightarrow> Inl e
         | Inr s \<Rightarrow> Inr (CSTRING, Txt s)))]"

text \<open>
  \<^verbatim>\<open>re.Scanner\<close> joins the patterns into one alternation, so at each position the first
  pattern of the lexicon that matches is taken.
\<close>

fun first_match :: "rule list \<Rightarrow> string \<Rightarrow> ((string \<Rightarrow> error + token) \<times> nat) option" where
  "first_match [] s = None"
| "first_match (r # rules) s =
     (case fst r s of
        Some j \<Rightarrow> Some (snd r, j)
      | None \<Rightarrow> first_match rules s)"

lemma first_match_mi_scanner_Nil: "first_match (mi_scanner ucd) [] = None"
  by (simp add: mi_scanner_def re_digits_def re_literal_def re_identifier_def re_cstring_def)

text \<open>
  \<^verbatim>\<open>mi_scanner.scan\<close>: match at the current position; stop when nothing matches or the
  match is empty; otherwise run the action on the matched text, append its token and go on
  after the match. It returns the tokens and the text that is left. An exception of an
  action ends the scan at once.
\<close>

function scan :: "(string \<Rightarrow> int option) \<Rightarrow> string \<Rightarrow> error + (token list \<times> string)" where
  "scan ucd s =
     (case first_match (mi_scanner ucd) s of
        None \<Rightarrow> Inr ([], s)
      | Some (action, j) \<Rightarrow>
          if j = 0 then Inr ([], s)
          else (case action (take j s) of
                  Inl e \<Rightarrow> Inl e
                | Inr tok \<Rightarrow>
                    (case scan ucd (drop j s) of
                       Inl e \<Rightarrow> Inl e
                     | Inr (toks, remainder) \<Rightarrow> Inr (tok # toks, remainder))))"
  by pat_completeness auto
termination
proof (relation "measure (\<lambda>(ucd, s). length s)")
  fix ucd :: "string \<Rightarrow> int option" and s x2 and x :: "string \<Rightarrow> error + token" and j :: nat and tok
  assume m: "first_match (mi_scanner ucd) s = Some x2" and "j \<noteq> 0"
  from m have "s \<noteq> []"
    using first_match_mi_scanner_Nil by auto
  with \<open>j \<noteq> 0\<close> show "((ucd, drop j s), (ucd, s)) \<in> measure (\<lambda>(ucd, s). length s)"
    by (cases s) auto
qed simp

declare scan.simps [simp del]

subsection \<open>MIParser: the token cursor\<close>

text \<open>
  The parser's state is \<^verbatim>\<open>self._token\<close>, the current token, and the iterator
  \<^verbatim>\<open>self._tokens\<close> over those after it. Here it is the list of the tokens not yet
  consumed, the current one first; the empty list is the state in which \<^verbatim>\<open>_advance\<close>
  has run off the end and the current token is the pair \<^verbatim>\<open>(None, None)\<close>. The flag
  \<^verbatim>\<open>self.pedantic\<close> is passed as an argument. A rule returns its value with the state
  it leaves.
\<close>

fun lookahead :: "token list \<Rightarrow> kind option" where
  "lookahead [] = None"
| "lookahead (t # ts) = Some (fst t)"

text \<open>How \<^verbatim>\<open>%s\<close> prints the kind of the current token.\<close>

fun str_kind :: "kind option \<Rightarrow> string" where
  "str_kind None = ''None''"
| "str_kind (Some k) = kind_name k"

definition check :: "kind \<Rightarrow> token list \<Rightarrow> bool" where
  "check expected ts = (lookahead ts = Some expected)"

text \<open>
  \<^verbatim>\<open>_accept\<close> advances only after a successful \<^verbatim>\<open>_check\<close>, so \<^verbatim>\<open>_advance\<close> always
  returns a real token and leaves the tail. \<open>None\<close> stands for the \<^verbatim>\<open>False\<close> it returns
  otherwise.
\<close>

definition accept :: "kind \<Rightarrow> token list \<Rightarrow> token option \<times> token list" where
  "accept expected ts = (if check expected ts then (Some (hd ts), tl ts) else (None, ts))"

definition expect :: "kind \<Rightarrow> token list \<Rightarrow> error + (token \<times> token list)" where
  "expect expected ts =
     (case accept expected ts of
        (Some token, ts') \<Rightarrow> Inr (token, ts')
      | (None, ts') \<Rightarrow>
          Inl (SyntaxError (''expected '' @ kind_name expected @ '', got '' @ str_kind (lookahead ts'))))"

definition p_string :: "token list \<Rightarrow> error + (tokval \<times> token list)" where
  "p_string ts =
     (case expect STRING ts of Inl e \<Rightarrow> Inl e | Inr (token, ts') \<Rightarrow> Inr (snd token, ts'))"

definition p_cstring :: "token list \<Rightarrow> error + (tokval \<times> token list)" where
  "p_cstring ts =
     (case expect CSTRING ts of Inl e \<Rightarrow> Inl e | Inr (token, ts') \<Rightarrow> Inr (snd token, ts'))"

definition token_maybe :: "token list \<Rightarrow> tokval option \<times> token list" where
  "token_maybe ts =
     (case accept TOKEN ts of
        (Some token, ts') \<Rightarrow> (Some (snd token), ts')
      | (None, ts') \<Rightarrow> (None, ts'))"

lemma check_Nil [simp]: "check k [] = False"
  by (simp add: check_def)

lemma check_Cons [simp]: "check k (t # ts) = (fst t = k)"
  by (simp add: check_def)

lemma accept_Some_iff [simp]:
  "(accept k ts = (Some t, r)) = (ts = t # r \<and> fst t = k)"
  "((Some t, r) = accept k ts) = (ts = t # r \<and> fst t = k)"
  by (cases ts; auto simp: accept_def)+

lemma accept_None_iff [simp]:
  "(accept k ts = (None, r)) = (r = ts \<and> \<not> check k ts)"
  "((None, r) = accept k ts) = (r = ts \<and> \<not> check k ts)"
  by (cases ts; auto simp: accept_def)+

lemma expect_Nil [simp]:
  "expect k [] = Inl (SyntaxError (''expected '' @ kind_name k @ '', got None''))"
  by (simp add: expect_def accept_def)

lemma expect_Cons:
  "expect k (t # ts) =
     (if fst t = k then Inr (t, ts)
      else Inl (SyntaxError (''expected '' @ kind_name k @ '', got '' @ kind_name (fst t))))"
  by (simp add: expect_def accept_def)

lemma expect_Inr_iff [simp]:
  "(expect k ts = Inr (t, r)) = (ts = t # r \<and> fst t = k)"
  by (cases ts; auto simp: expect_def accept_def split: prod.splits option.splits)

lemma p_string_Inr_iff [simp]:
  "(p_string ts = Inr (v, r)) = (\<exists>t. ts = t # r \<and> fst t = STRING \<and> v = snd t)"
  by (cases ts) (auto simp: p_string_def expect_Cons split: sum.splits)

lemma p_cstring_Inr_iff [simp]:
  "(p_cstring ts = Inr (v, r)) = (\<exists>t. ts = t # r \<and> fst t = CSTRING \<and> v = snd t)"
  by (cases ts) (auto simp: p_cstring_def expect_Cons split: sum.splits)

subsection \<open>MIParser: values and results\<close>

text \<open>
  The rules \<^verbatim>\<open>_value\<close>, \<^verbatim>\<open>_list\<close>, \<^verbatim>\<open>_list_values\<close>, \<^verbatim>\<open>_list_results\<close>,
  \<^verbatim>\<open>_tuple\<close>, \<^verbatim>\<open>_result\<close> and \<^verbatim>\<open>_comma_prefixed_results\<close> call one another. The
  two \<^verbatim>\<open>while\<close> loops are the functions \<open>list_values_loop\<close> and
  \<open>comma_prefixed_results_loop\<close>, which carry the list being appended to. In
  \<^verbatim>\<open>_value\<close> a kind that is not a key of the dispatch dictionary (or the \<^verbatim>\<open>None\<close> of
  the exhausted state) raises \<^verbatim>\<open>KeyError\<close>, which the rule turns into its own error.
\<close>

function p_value :: "token list \<Rightarrow> error + (pyval \<times> token list)"
  and p_list :: "token list \<Rightarrow> error + (pyval \<times> token list)"
  and list_values :: "token list \<Rightarrow> error + (pyval \<times> token list)"
  and list_values_loop :: "pyval list \<Rightarrow> token list \<Rightarrow> error + (pyval \<times> token list)"
  and list_results :: "token list \<Rightarrow> error + (pyval \<times> token list)"
  and p_tuple :: "token list \<Rightarrow> error + (pyval \<times> token list)"
  and p_result :: "token list \<Rightarrow> error + (pyval \<times> token list)"
  and comma_prefixed_results :: "kind \<Rightarrow> token list \<Rightarrow> error + (pyval list \<times> token list)"
  and comma_prefixed_results_loop :: "kind \<Rightarrow> pyval list \<Rightarrow> token list \<Rightarrow> error + (pyval list \<times> token list)"
where
  "p_value ts =
     (case lookahead ts of
        Some LBRACKET \<Rightarrow> p_list ts
      | Some CSTRING \<Rightarrow>
          (case p_cstring ts of Inl e \<Rightarrow> Inl e | Inr (s, ts1) \<Rightarrow> Inr (Atom s, ts1))
      | Some LBRACE \<Rightarrow> p_tuple ts
      | _ \<Rightarrow> Inl (SyntaxError ''expected list, tuple or C string''))"
| "p_list ts =
     (case expect LBRACKET ts of
        Inl e \<Rightarrow> Inl e
      | Inr (_, ts1) \<Rightarrow>
          (case accept RBRACKET ts1 of
             (Some _, ts2) \<Rightarrow> Inr (PList [], ts2)
           | (None, ts2) \<Rightarrow>
               if check STRING ts2 then list_results ts2 else list_values ts2))"
| "list_values ts =
     (case p_value ts of
        Inl e \<Rightarrow> Inl e
      | Inr (v, ts1) \<Rightarrow> list_values_loop [v] ts1)"
| "list_values_loop values ts =
     (if check COMMA ts then
        (case expect COMMA ts of
           Inl e \<Rightarrow> Inl e
         | Inr (_, ts1) \<Rightarrow>
             (case p_value ts1 of
                Inl e \<Rightarrow> Inl e
              | Inr (v, ts2) \<Rightarrow> list_values_loop (values @ [v]) ts2))
      else
        (case expect RBRACKET ts of
           Inl e \<Rightarrow> Inl e
         | Inr (_, ts1) \<Rightarrow> Inr (PList values, ts1)))"
| "list_results ts =
     (case p_result ts of
        Inl e \<Rightarrow> Inl e
      | Inr (r, ts1) \<Rightarrow>
          (case comma_prefixed_results RBRACKET ts1 of
             Inl e \<Rightarrow> Inl e
           | Inr (rs, ts2) \<Rightarrow> Inr (PList ([r] @ rs), ts2)))"
| "p_tuple ts =
     (case expect LBRACE ts of
        Inl e \<Rightarrow> Inl e
      | Inr (_, ts1) \<Rightarrow>
          (case accept RBRACE ts1 of
             (Some _, ts2) \<Rightarrow> Inr (PList [], ts2)
           | (None, ts2) \<Rightarrow>
               (case p_result ts2 of
                  Inl e \<Rightarrow> Inl e
                | Inr (r, ts3) \<Rightarrow>
                    (case comma_prefixed_results RBRACE ts3 of
                       Inl e \<Rightarrow> Inl e
                     | Inr (rs, ts4) \<Rightarrow> Inr (PList ([r] @ rs), ts4)))))"
| "p_result ts =
     (case p_string ts of
        Inl e \<Rightarrow> Inl e
      | Inr (result_name, ts1) \<Rightarrow>
          (case expect EQUALS ts1 of
             Inl e \<Rightarrow> Inl e
           | Inr (_, ts2) \<Rightarrow>
               (case p_value ts2 of
                  Inl e \<Rightarrow> Inl e
                | Inr (v, ts3) \<Rightarrow> Inr (PDict result_name v, ts3))))"
| "comma_prefixed_results closer ts = comma_prefixed_results_loop closer [] ts"
| "comma_prefixed_results_loop closer results ts =
     (if check COMMA ts then
        (case expect COMMA ts of
           Inl e \<Rightarrow> Inl e
         | Inr (_, ts1) \<Rightarrow>
             (case p_result ts1 of
                Inl e \<Rightarrow> Inl e
              | Inr (r, ts2) \<Rightarrow> comma_prefixed_results_loop closer (results @ [r]) ts2))
      else
        (case expect closer ts of
           Inl e \<Rightarrow> Inl e
         | Inr (_, ts1) \<Rightarrow> Inr (results, ts1)))"
  by pat_completeness auto

lemmas parser_pinduct =
  p_value_p_list_list_values_list_values_loop_list_results_p_tuple_p_result_comma_prefixed_results_comma_prefixed_results_loop.pinduct

abbreviation "parser_dom \<equiv>
  p_value_p_list_list_values_list_values_loop_list_results_p_tuple_p_result_comma_prefixed_results_comma_prefixed_results_loop_dom"

text \<open>Every rule that returns has consumed a token; the recursion ends for that reason.\<close>

lemma shorter_dom:
  "parser_dom (Inl (Inl (Inl ts))) \<Longrightarrow> (\<forall>v r. p_value ts = Inr (v, r) \<longrightarrow> length r < length ts)"
  "parser_dom (Inl (Inl (Inr ts2))) \<Longrightarrow> (\<forall>v r. p_list ts2 = Inr (v, r) \<longrightarrow> length r < length ts2)"
  "parser_dom (Inl (Inr (Inl ts3))) \<Longrightarrow> (\<forall>v r. list_values ts3 = Inr (v, r) \<longrightarrow> length r < length ts3)"
  "parser_dom (Inl (Inr (Inr (vs4, ts4)))) \<Longrightarrow> (\<forall>v r. list_values_loop vs4 ts4 = Inr (v, r) \<longrightarrow> length r < length ts4)"
  "parser_dom (Inr (Inl (Inl ts5))) \<Longrightarrow> (\<forall>v r. list_results ts5 = Inr (v, r) \<longrightarrow> length r < length ts5)"
  "parser_dom (Inr (Inl (Inr ts6))) \<Longrightarrow> (\<forall>v r. p_tuple ts6 = Inr (v, r) \<longrightarrow> length r < length ts6)"
  "parser_dom (Inr (Inr (Inl ts7))) \<Longrightarrow> (\<forall>v r. p_result ts7 = Inr (v, r) \<longrightarrow> length r < length ts7)"
  "parser_dom (Inr (Inr (Inr (Inl (c8, ts8))))) \<Longrightarrow> (\<forall>v r. comma_prefixed_results c8 ts8 = Inr (v, r) \<longrightarrow> length r < length ts8)"
  "parser_dom (Inr (Inr (Inr (Inr (c9, vs9, ts9))))) \<Longrightarrow> (\<forall>v r. comma_prefixed_results_loop c9 vs9 ts9 = Inr (v, r) \<longrightarrow> length r < length ts9)"
proof (induct rule: parser_pinduct)
  case (1 ts)
  then show ?case
    by (auto simp: p_value.psimps split: option.splits kind.splits sum.splits)
next
  case (2 ts)
  then show ?case
    by (fastforce simp: p_list.psimps split: sum.splits prod.splits option.splits if_splits)
next
  case (3 ts)
  then show ?case
    by (fastforce simp: list_values.psimps split: sum.splits prod.splits)
next
  case (4 "values" ts)
  then show ?case
    by (fastforce simp: list_values_loop.psimps split: sum.splits prod.splits if_splits)
next
  case (5 ts)
  then show ?case
    by (fastforce simp: list_results.psimps split: sum.splits prod.splits)
next
  case (6 ts)
  then show ?case
    by (fastforce simp: p_tuple.psimps split: sum.splits prod.splits option.splits)
next
  case (7 ts)
  then show ?case
    by (fastforce simp: p_result.psimps split: sum.splits prod.splits)
next
  case (8 closer ts)
  then show ?case
    by (simp add: comma_prefixed_results.psimps)
next
  case (9 closer results ts)
  then show ?case
    by (fastforce simp: comma_prefixed_results_loop.psimps split: sum.splits prod.splits if_splits)
qed

termination p_value
  by (relation "measure (\<lambda>x. case x of
      Inl (Inl (Inl ts)) \<Rightarrow> 4 * length ts + 1
    | Inl (Inl (Inr ts)) \<Rightarrow> 4 * length ts
    | Inl (Inr (Inl ts)) \<Rightarrow> 4 * length ts + 2
    | Inl (Inr (Inr (vs, ts))) \<Rightarrow> 4 * length ts
    | Inr (Inl (Inl ts)) \<Rightarrow> 4 * length ts + 3
    | Inr (Inl (Inr ts)) \<Rightarrow> 4 * length ts
    | Inr (Inr (Inl ts)) \<Rightarrow> 4 * length ts + 2
    | Inr (Inr (Inr (Inl (c, ts)))) \<Rightarrow> 4 * length ts + 1
    | Inr (Inr (Inr (Inr (c, vs, ts)))) \<Rightarrow> 4 * length ts)") (auto dest: shorter_dom)

declare p_value.simps [simp del] p_list.simps [simp del] list_values.simps [simp del]
  list_values_loop.simps [simp del] list_results.simps [simp del] p_tuple.simps [simp del]
  p_result.simps [simp del] comma_prefixed_results.simps [simp del]
  comma_prefixed_results_loop.simps [simp del]

subsection \<open>What a rule consumes\<close>

text \<open>
  Two facts about every rule, used throughout: a rule that fails fails with the parser's
  own \<^verbatim>\<open>SyntaxError\<close>, and a rule that returns leaves a proper suffix of the tokens it
  was given, having consumed tokens of known kinds only. \<open>eats K ts r\<close> says that \<open>r\<close> is
  what is left of \<open>ts\<close> after a prefix of tokens whose kinds are in \<open>K\<close>.
\<close>

definition value_kinds :: "kind set" where
  "value_kinds = {LBRACKET, RBRACKET, LBRACE, RBRACE, COMMA, STRING, EQUALS, CSTRING}"

definition eats :: "kind set \<Rightarrow> token list \<Rightarrow> token list \<Rightarrow> bool" where
  "eats K ts r = (\<exists>pre. ts = pre @ r \<and> fst ` set pre \<subseteq> K)"

definition sound0 :: "kind set \<Rightarrow> token list \<Rightarrow> error + ('a \<times> token list) \<Rightarrow> bool" where
  "sound0 K ts res =
     (case res of
        Inl e \<Rightarrow> \<exists>m. e = SyntaxError m
      | Inr (v, r) \<Rightarrow> eats K ts r)"

definition sound :: "kind set \<Rightarrow> token list \<Rightarrow> error + ('a \<times> token list) \<Rightarrow> bool" where
  "sound K ts res =
     (case res of
        Inl e \<Rightarrow> \<exists>m. e = SyntaxError m
      | Inr (v, r) \<Rightarrow> eats K ts r \<and> length r < length ts)"

lemma eats_refl [simp]: "eats K ts ts"
  by (simp add: eats_def)

lemma eats_Cons: "fst t \<in> K \<Longrightarrow> eats K ts r \<Longrightarrow> eats K (t # ts) r"
  unfolding eats_def by (metis Cons_eq_appendI image_insert insert_subset list.simps(15))

lemma eats_trans: "eats K ts r \<Longrightarrow> eats K r r' \<Longrightarrow> eats K ts r'"
  unfolding eats_def by (metis append.assoc image_Un le_sup_iff set_append)

lemma eats_mono: "eats K ts r \<Longrightarrow> K \<subseteq> K' \<Longrightarrow> eats K' ts r"
  unfolding eats_def by blast

lemma eats_length: "eats K ts r \<Longrightarrow> length r \<le> length ts"
  unfolding eats_def by auto

lemma sound_Inl [simp]: "sound K ts (Inl e) = (\<exists>m. e = SyntaxError m)"
  by (simp add: sound_def)

lemma sound_Inr [simp]: "sound K ts (Inr (v, r)) = (eats K ts r \<and> length r < length ts)"
  by (simp add: sound_def)

lemma sound0_Inl [simp]: "sound0 K ts (Inl e) = (\<exists>m. e = SyntaxError m)"
  by (simp add: sound0_def)

lemma sound0_Inr [simp]: "sound0 K ts (Inr (v, r)) = eats K ts r"
  by (simp add: sound0_def)

lemma sound_sound0: "sound K ts res \<Longrightarrow> sound0 K ts res"
  by (auto simp: sound_def sound0_def split: sum.splits)

lemma sound_mono: "sound K ts res \<Longrightarrow> K \<subseteq> K' \<Longrightarrow> sound K' ts res"
  by (auto simp: sound_def split: sum.splits intro: eats_mono)

lemma sound_ConsI: "fst t \<in> K \<Longrightarrow> sound0 K r res \<Longrightarrow> sound K (t # r) res"
  by (auto simp: sound_def sound0_def split: sum.splits intro: eats_Cons dest: eats_length)

lemma sound_bind:
  assumes "sound K ts res"
    and "\<And>v r. res = Inr (v, r) \<Longrightarrow> sound0 K r (f v r)"
  shows "sound K ts (case res of Inl e \<Rightarrow> Inl e | Inr (v, r) \<Rightarrow> f v r)"
proof (cases res)
  case (Inl e)
  with assms(1) show ?thesis by simp
next
  case (Inr p)
  obtain v r where p: "p = (v, r)" by (cases p)
  from assms(1) Inr p have 1: "eats K ts r" "length r < length ts" by simp_all
  from assms(2) Inr p have 2: "sound0 K r (f v r)" by simp
  show ?thesis
  proof (cases "f v r")
    case (Inl e)
    with 2 Inr p show ?thesis by simp
  next
    case b: (Inr q)
    obtain v' r' where q: "q = (v', r')" by (cases q)
    from 2 b q have "eats K r r'" by simp
    with 1 have "eats K ts r'" "length r' < length ts"
      by (auto intro: eats_trans dest: eats_length)
    with Inr p b q show ?thesis by simp
  qed
qed

lemma sound0_bind:
  assumes "sound0 K ts res"
    and "\<And>v r. res = Inr (v, r) \<Longrightarrow> sound0 K r (f v r)"
  shows "sound0 K ts (case res of Inl e \<Rightarrow> Inl e | Inr (v, r) \<Rightarrow> f v r)"
proof (cases res)
  case (Inl e)
  with assms(1) show ?thesis by simp
next
  case (Inr p)
  obtain v r where p: "p = (v, r)" by (cases p)
  from assms(1) Inr p have 1: "eats K ts r" by simp
  from assms(2) Inr p have 2: "sound0 K r (f v r)" by simp
  show ?thesis
  proof (cases "f v r")
    case (Inl e)
    with 2 Inr p show ?thesis by simp
  next
    case b: (Inr q)
    obtain v' r' where q: "q = (v', r')" by (cases q)
    from 2 b q have "eats K r r'" by simp
    with 1 have "eats K ts r'"
      by (auto intro: eats_trans)
    with Inr p b q show ?thesis by simp
  qed
qed

lemmas parser_induct =
  p_value_p_list_list_values_list_values_loop_list_results_p_tuple_p_result_comma_prefixed_results_comma_prefixed_results_loop.induct

lemma vk [simp]:
  "LBRACKET \<in> value_kinds" "RBRACKET \<in> value_kinds" "LBRACE \<in> value_kinds"
  "RBRACE \<in> value_kinds" "COMMA \<in> value_kinds" "STRING \<in> value_kinds"
  "EQUALS \<in> value_kinds" "CSTRING \<in> value_kinds"
  by (simp_all add: value_kinds_def)

lemma parser_sound:
  "sound value_kinds ts (p_value ts)"
  "sound value_kinds ts2 (p_list ts2)"
  "sound value_kinds ts3 (list_values ts3)"
  "sound value_kinds ts4 (list_values_loop vs4 ts4)"
  "sound value_kinds ts5 (list_results ts5)"
  "sound value_kinds ts6 (p_tuple ts6)"
  "sound value_kinds ts7 (p_result ts7)"
  "sound (insert c8 value_kinds) ts8 (comma_prefixed_results c8 ts8)"
  "sound (insert c9 value_kinds) ts9 (comma_prefixed_results_loop c9 vs9 ts9)"
proof (induct ts and ts2 and ts3 and vs4 ts4 and ts5 and ts6 and ts7 and c8 ts8 and c9 vs9 ts9
    rule: parser_induct)
  case (1 ts)
  show ?case
  proof (cases ts)
    case Nil
    then show ?thesis by (simp add: p_value.simps)
  next
    case (Cons t r)
    show ?thesis
    proof (cases "fst t")
      case LBRACKET
      with Cons 1(1) show ?thesis by (simp add: p_value.simps)
    next
      case LBRACE
      with Cons 1(2) show ?thesis by (simp add: p_value.simps)
    next
      case CSTRING
      with Cons show ?thesis
        by (simp add: p_value.simps p_cstring_def expect_Cons eats_Cons)
    qed (simp_all add: Cons p_value.simps)
  qed
next
  case (2 ts)
  show ?case
  proof (cases ts)
    case Nil
    then show ?thesis by (simp add: p_list.simps)
  next
    case (Cons t r)
    show ?thesis
    proof (cases "fst t = LBRACKET")
      case False
      with Cons show ?thesis by (simp add: p_list.simps expect_Cons)
    next
      case True
      have "sound0 value_kinds r
         (case accept RBRACKET r of
            (Some x, ts2) \<Rightarrow> Inr (PList [], ts2)
          | (None, ts2) \<Rightarrow> if check STRING ts2 then list_results ts2 else list_values ts2)"
      proof (cases "check RBRACKET r")
        case c: True
        then obtain t' r' where "r = t' # r'" "fst t' = RBRACKET" by (cases r) auto
        then show ?thesis by (simp add: accept_def eats_Cons)
      next
        case c: False
        then have a: "accept RBRACKET r = (None, r)" by (simp add: accept_def)
        show ?thesis
          using 2(1) [of "(t, r)" t r None r] 2(2) [of "(t, r)" t r None r] Cons True c
          by (auto simp: expect_Cons accept_def intro: sound_sound0)
      qed
      with Cons True show ?thesis
        by (simp add: p_list.simps expect_Cons sound_ConsI)
    qed
  qed
next
  case (3 ts)
  show ?case
    unfolding list_values.simps [of ts]
    by (rule sound_bind [OF 3(1)]) (auto intro: sound_sound0 3(2))
next
  case (4 "values" ts)
  show ?case
  proof (cases ts)
    case Nil
    then show ?thesis by (simp add: list_values_loop.simps)
  next
    case (Cons t r)
    show ?thesis
    proof (cases "fst t = COMMA")
      case True
      have 1: "sound value_kinds r (p_value r)"
        using 4(1) [of "(t, r)" t r] Cons True by (simp add: expect_Cons)
      have 2: "sound0 value_kinds r
          (case p_value r of Inl e \<Rightarrow> Inl e
           | Inr (v, ts2) \<Rightarrow> list_values_loop (values @ [v]) ts2)"
        apply (rule sound0_bind [OF sound_sound0 [OF 1]])
        apply (rule sound_sound0)
        using 4(2) [of "(t, r)" t r] Cons True
        apply (simp add: expect_Cons)
        done
      with Cons True show ?thesis
        by (simp add: list_values_loop.simps [of _ "t # r"] expect_Cons sound_ConsI)
    next
      case False
      with Cons show ?thesis
        by (simp add: list_values_loop.simps [of _ "t # r"] expect_Cons eats_Cons)
    qed
  qed
next
  case (5 ts)
  show ?case
    unfolding list_results.simps [of ts]
    apply (rule sound_bind [OF 5(1)])
    apply (rule sound0_bind)
     apply (rule sound_sound0)
     apply (rule sound_mono [OF 5(2)])
      apply simp_all
    done
next
  case (6 ts)
  show ?case
  proof (cases ts)
    case Nil
    then show ?thesis by (simp add: p_tuple.simps)
  next
    case (Cons t r)
    show ?thesis
    proof (cases "fst t = LBRACE")
      case False
      with Cons show ?thesis by (simp add: p_tuple.simps expect_Cons)
    next
      case True
      have "sound0 value_kinds r
         (case accept RBRACE r of
            (Some x, ts2) \<Rightarrow> Inr (PList [], ts2)
          | (None, ts2) \<Rightarrow>
              (case p_result ts2 of
                  Inl e \<Rightarrow> Inl e
                | Inr (r, ts3) \<Rightarrow>
                    (case comma_prefixed_results RBRACE ts3 of
                       Inl e \<Rightarrow> Inl e
                     | Inr (rs, ts4) \<Rightarrow> Inr (PList ([r] @ rs), ts4))))"
      proof (cases "check RBRACE r")
        case c: True
        then obtain t' r' where "r = t' # r'" "fst t' = RBRACE" by (cases r) auto
        then show ?thesis by (simp add: accept_def eats_Cons)
      next
        case c: False
        then have a: "accept RBRACE r = (None, r)" by (simp add: accept_def)
        have 1: "sound value_kinds r (p_result r)"
          using 6(1) [of "(t, r)" t r None r] Cons True c by (simp add: expect_Cons)
        have 2: "p_result r = Inr (x, y) \<Longrightarrow> sound value_kinds y (comma_prefixed_results RBRACE y)" for x y
          using 6(2) [of "(t, r)" t r None r "(x, y)" x y] Cons True c
          by (simp add: expect_Cons insert_absorb)
        show ?thesis
          unfolding a
          apply simp
          apply (rule sound0_bind [OF sound_sound0 [OF 1]])
          apply (rule sound0_bind)
           apply (rule sound_sound0)
           apply (erule 2)
          apply simp
          done
      qed
      with Cons True show ?thesis
        by (simp add: p_tuple.simps expect_Cons sound_ConsI)
    qed
  qed
next
  case (7 ts)
  show ?case
  proof (cases ts)
    case Nil
    then show ?thesis by (simp add: p_result.simps p_string_def)
  next
    case (Cons t r)
    show ?thesis
    proof (cases "fst t = STRING")
      case False
      with Cons show ?thesis by (simp add: p_result.simps p_string_def expect_Cons)
    next
      case True
      have "sound0 value_kinds r
         (case expect EQUALS r of
             Inl e \<Rightarrow> Inl e
           | Inr (x, ts2) \<Rightarrow>
               (case p_value ts2 of
                  Inl e \<Rightarrow> Inl e
                | Inr (v, ts3) \<Rightarrow> Inr (PDict (snd t) v, ts3)))"
      proof (cases r)
        case Nil
        then show ?thesis by simp
      next
        case c: (Cons t' r')
        show ?thesis
        proof (cases "fst t' = EQUALS")
          case False
          with c show ?thesis by (simp add: expect_Cons)
        next
          case e: True
          have 1: "sound value_kinds r' (p_value r')"
            using 7 [of "(snd t, r)" "snd t" r "(t', r')" t' r'] Cons True c e
            by (simp add: p_string_def expect_Cons)
          have "sound value_kinds r' (case p_value r' of Inl e \<Rightarrow> Inl e
                | Inr (v, ts3) \<Rightarrow> Inr (PDict (snd t) v, ts3))"
            by (rule sound_bind [OF 1]) simp
          with c e show ?thesis
            by (simp add: expect_Cons sound_sound0 [OF sound_ConsI] sound_sound0)
        qed
      qed
      with Cons True show ?thesis
        by (simp add: p_result.simps p_string_def expect_Cons sound_ConsI)
    qed
  qed
next
  case (8 closer ts)
  then show ?case
    by (simp add: comma_prefixed_results.simps)
next
  case (9 closer results ts)
  show ?case
  proof (cases ts)
    case Nil
    then show ?thesis by (simp add: comma_prefixed_results_loop.simps)
  next
    case (Cons t r)
    show ?thesis
    proof (cases "fst t = COMMA")
      case True
      have 1: "sound (insert closer value_kinds) r (p_result r)"
        using 9(1) [of "(t, r)" t r] Cons True
        by (auto simp: expect_Cons intro: sound_mono)
      have 2: "sound0 (insert closer value_kinds) r
          (case p_result r of Inl e \<Rightarrow> Inl e
           | Inr (v, ts2) \<Rightarrow> comma_prefixed_results_loop closer (results @ [v]) ts2)"
        apply (rule sound0_bind [OF sound_sound0 [OF 1]])
        apply (rule sound_sound0)
        using 9(2) [of "(t, r)" t r] Cons True
        apply (simp add: expect_Cons)
        done
      with Cons True show ?thesis
        by (simp add: comma_prefixed_results_loop.simps [of _ _ "t # r"] expect_Cons sound_ConsI)
    next
      case False
      with Cons show ?thesis
        by (simp add: comma_prefixed_results_loop.simps [of _ _ "t # r"] expect_Cons eats_Cons)
    qed
  qed
qed

lemma parser_shorter:
  "p_value ts = Inr (v, r) \<Longrightarrow> length r < length ts"
  "p_result ts = Inr (v, r) \<Longrightarrow> length r < length ts"
  "comma_prefixed_results closer ts = Inr (vs, r) \<Longrightarrow> length r < length ts"
  using parser_sound(1) [of ts] parser_sound(7) [of ts] parser_sound(8) [of closer ts]
  by simp_all

subsection \<open>MIParser: records and the document\<close>

text \<open>
  \<^verbatim>\<open>_async_output\<close> builds its tuple from left to right: the optional numeric token, the
  sigil, the class, the results up to the newline. \<^verbatim>\<open>_stream_output\<close> takes the sigil
  and the C string, and only when not pedantic accepts a newline.
\<close>

definition async_output :: "kind \<Rightarrow> token list \<Rightarrow> error + (oob_record \<times> token list)" where
  "async_output prefix ts =
     (case token_maybe ts of
        (token, ts1) \<Rightarrow>
          (case expect prefix ts1 of
             Inl e \<Rightarrow> Inl e
           | Inr (sigil, ts2) \<Rightarrow>
               (case p_string ts2 of
                  Inl e \<Rightarrow> Inl e
                | Inr (async_class, ts3) \<Rightarrow>
                    (case comma_prefixed_results NL ts3 of
                       Inl e \<Rightarrow> Inl e
                     | Inr (results, ts4) \<Rightarrow>
                         Inr (AsyncRecord token (snd sigil) async_class results, ts4)))))"

definition stream_output :: "bool \<Rightarrow> kind \<Rightarrow> token list \<Rightarrow> error + (oob_record \<times> token list)" where
  "stream_output pedantic prefix ts =
     (case expect prefix ts of
        Inl e \<Rightarrow> Inl e
      | Inr (sigil, ts1) \<Rightarrow>
          (case p_cstring ts1 of
             Inl e \<Rightarrow> Inl e
           | Inr (s, ts2) \<Rightarrow>
               if \<not> pedantic then Inr (StreamRecord (snd sigil) s, snd (accept NL ts2))
               else Inr (StreamRecord (snd sigil) s, ts2)))"

text \<open>
  \<^verbatim>\<open>_out_of_band_record\<close> looks the kind of the current token up in a dictionary of six
  handlers; any other kind, and the \<^verbatim>\<open>None\<close> of the exhausted state, is a
  \<^verbatim>\<open>KeyError\<close> that becomes the rule's own error.
\<close>

definition out_of_band_record :: "bool \<Rightarrow> token list \<Rightarrow> error + (oob_record \<times> token list)" where
  "out_of_band_record pedantic ts =
     (let marker = lookahead ts in
        if marker = Some ASTERISK then async_output ASTERISK ts
        else if marker = Some PLUS then async_output PLUS ts
        else if marker = Some EQUALS then async_output EQUALS ts
        else if marker = Some TILDE then stream_output pedantic TILDE ts
        else if marker = Some AT then stream_output pedantic AT ts
        else if marker = Some AMPERSAND then stream_output pedantic AMPERSAND ts
        else Inl (SyntaxError (''expected out-of-band record marker, got '' @ [CHR 0x27]
                    @ str_kind marker @ [CHR 0x27])))"

definition result_record :: "token list \<Rightarrow> error + (result_record \<times> token list)" where
  "result_record ts =
     (case token_maybe ts of
        (token, ts1) \<Rightarrow>
          (case expect CARET ts1 of
             Inl e \<Rightarrow> Inl e
           | Inr (_, ts2) \<Rightarrow>
               (case p_string ts2 of
                  Inl e \<Rightarrow> Inl e
                | Inr (result_class, ts3) \<Rightarrow>
                    (case (if check COMMA ts3
                           then (case comma_prefixed_results NL ts3 of
                                   Inl e \<Rightarrow> Inl e
                                 | Inr (rs, ts4) \<Rightarrow> Inr (Some rs, ts4))
                           else Inr (None, ts3)) of
                       Inl e \<Rightarrow> Inl e
                     | Inr (results, ts4) \<Rightarrow>
                         (case expect NL ts4 of
                            Inl e \<Rightarrow> Inl e
                          | Inr (_, ts5) \<Rightarrow> Inr ((token, result_class, results), ts5))))))"

lemma token_maybe_shorter: "token_maybe ts = (t, r) \<Longrightarrow> length r \<le> length ts"
  by (cases ts) (auto simp: token_maybe_def accept_def split: if_splits)

lemma out_of_band_record_shorter:
  "out_of_band_record pedantic ts = Inr (x, r) \<Longrightarrow> length r < length ts"
  by (auto simp: out_of_band_record_def async_output_def stream_output_def Let_def accept_def
      split: if_splits sum.splits prod.splits dest!: token_maybe_shorter parser_shorter(3))

text \<open>
  The two \<^verbatim>\<open>while\<close> loops of \<^verbatim>\<open>_output\<close>, each appending to \<^verbatim>\<open>oob_records\<close>: the
  first runs until a caret or the prompt is the current token, the second until the
  prompt is.
\<close>

function output_loop1 ::
  "bool \<Rightarrow> oob_record list \<Rightarrow> token list \<Rightarrow> error + (oob_record list \<times> token list)" where
  "output_loop1 pedantic oob_records ts =
     (if \<not> (check CARET ts \<or> check PROMPT ts) then
        (case out_of_band_record pedantic ts of
           Inl e \<Rightarrow> Inl e
         | Inr (r, ts1) \<Rightarrow> output_loop1 pedantic (oob_records @ [r]) ts1)
      else Inr (oob_records, ts))"
  by pat_completeness auto
termination
  by (relation "measure (\<lambda>(p, acc, ts). length ts)")
     (auto dest: out_of_band_record_shorter)

function output_loop2 ::
  "bool \<Rightarrow> oob_record list \<Rightarrow> token list \<Rightarrow> error + (oob_record list \<times> token list)" where
  "output_loop2 pedantic oob_records ts =
     (if \<not> check PROMPT ts then
        (case out_of_band_record pedantic ts of
           Inl e \<Rightarrow> Inl e
         | Inr (r, ts1) \<Rightarrow> output_loop2 pedantic (oob_records @ [r]) ts1)
      else Inr (oob_records, ts))"
  by pat_completeness auto
termination
  by (relation "measure (\<lambda>(p, acc, ts). length ts)")
     (auto dest: out_of_band_record_shorter)

declare output_loop1.simps [simp del] output_loop2.simps [simp del]

definition p_output :: "bool \<Rightarrow> token list \<Rightarrow> error + (document \<times> token list)" where
  "p_output pedantic ts =
     (case output_loop1 pedantic [] ts of
        Inl e \<Rightarrow> Inl e
      | Inr (oob_records, ts1) \<Rightarrow>
          (case (if check CARET ts1
                 then (case result_record ts1 of
                         Inl e \<Rightarrow> Inl e
                       | Inr (r, ts2) \<Rightarrow> Inr (Some r, ts2))
                 else Inr (None, ts1)) of
             Inl e \<Rightarrow> Inl e
           | Inr (result, ts2) \<Rightarrow>
               (case (if \<not> pedantic then output_loop2 pedantic oob_records ts2
                      else Inr (oob_records, ts2)) of
                  Inl e \<Rightarrow> Inl e
                | Inr (oob_records, ts3) \<Rightarrow>
                    (case expect PROMPT ts3 of
                       Inl e \<Rightarrow> Inl e
                     | Inr (_, ts4) \<Rightarrow>
                         (case expect NL ts4 of
                            Inl e \<Rightarrow> Inl e
                          | Inr (_, ts5) \<Rightarrow> Inr ((oob_records, result), ts5))))))"

text \<open>
  \<^verbatim>\<open>MIParser.parse\<close> takes the first token with \<^verbatim>\<open>next\<close> and no default, which raises
  \<^verbatim>\<open>StopIteration\<close> on an empty token list; it returns the document of \<^verbatim>\<open>_output\<close>.
\<close>

definition MIParser_parse :: "token list \<Rightarrow> bool \<Rightarrow> error + document" where
  "MIParser_parse tokens pedantic =
     (if tokens = [] then Inl StopIteration
      else (case p_output pedantic tokens of Inl e \<Rightarrow> Inl e | Inr (doc, ts) \<Rightarrow> Inr doc))"

text \<open>
  \<^verbatim>\<open>parse(text, pedantic)\<close>: scan, assert that nothing is left, run the parser on the
  tokens.
\<close>

definition parse :: "(string \<Rightarrow> int option) \<Rightarrow> string \<Rightarrow> bool \<Rightarrow> error + document" where
  "parse ucd text pedantic =
     (case scan ucd text of
        Inl e \<Rightarrow> Inl e
      | Inr (tokens, remainder) \<Rightarrow>
          if remainder \<noteq> [] then Inl AssertionError
          else MIParser_parse tokens pedantic)"

section \<open>Notions used to state the properties\<close>

text \<open>
  None of the following is part of the module; they name what the properties talk about.
  \<open>oob_kinds\<close> are the kinds of token an out-of-band record can consume and \<open>carets\<close>
  counts the caret tokens of a token list.
\<close>

definition oob_kinds :: "kind set" where
  "oob_kinds = value_kinds \<union> {TOKEN, NL, ASTERISK, PLUS, TILDE, AT, AMPERSAND}"

definition carets :: "token list \<Rightarrow> nat" where
  "carets ts = length (filter (\<lambda>t. fst t = CARET) ts)"





text \<open>
  An out-of-band record of the input is given by its tokens and the record they parse to in
  lenient mode, whatever follows them.
\<close>

definition oob_block :: "token list \<times> oob_record \<Rightarrow> bool" where
  "oob_block b = (case b of (toks, rcd) \<Rightarrow>
     \<forall>rest. out_of_band_record False (toks @ rest) = Inr (rcd, rest))"

text \<open>
  The characters that some rule of the lexicon can take outside a quoted string, with the
  quote that opens one: digits, the characters of identifiers (the letters of the prompt
  among them), the newline, the parentheses of the prompt, and the delimiters and sigils.
\<close>

definition lexical_char :: "char \<Rightarrow> bool" where
  "lexical_char c = (digit c \<or> ident_char c \<or> c \<in> set ''\<newline>()[]{},^*+=~@&\"'')"

text \<open>
  Where the two modes part. \<open>has_stream_nl\<close> finds a stream sigil, a C string and a
  newline in a row, that is a stream record followed by a newline;
  \<open>stream_with_newline\<close> looks for it before the first prompt token. \<open>oob_after_result\<close>
  says that, after the out-of-band records at the start and the result record, one more
  out-of-band record parses.
\<close>

fun stream_sigil :: "kind \<Rightarrow> bool" where
  "stream_sigil TILDE = True"
| "stream_sigil AT = True"
| "stream_sigil AMPERSAND = True"
| "stream_sigil _ = False"

fun has_stream_nl :: "token list \<Rightarrow> bool" where
  "has_stream_nl (a # b # c # ts) =
     ((stream_sigil (fst a) \<and> fst b = CSTRING \<and> fst c = NL) \<or> has_stream_nl (b # c # ts))"
| "has_stream_nl ts = False"

definition stream_with_newline :: "token list \<Rightarrow> bool" where
  "stream_with_newline ts = has_stream_nl (takeWhile (\<lambda>t. fst t \<noteq> PROMPT) ts)"

definition oob_after_result :: "token list \<Rightarrow> bool" where
  "oob_after_result ts =
     (case output_loop1 False [] ts of
        Inl e \<Rightarrow> False
      | Inr (oob_records, ts1) \<Rightarrow>
          check CARET ts1 \<and>
          (case result_record ts1 of
             Inl e \<Rightarrow> False
           | Inr (r, ts2) \<Rightarrow>
               (case out_of_band_record False ts2 of Inl e \<Rightarrow> False | Inr x \<Rightarrow> True)))"

section \<open>The scanner\<close>

text \<open>
  The scanner fails only where \<^verbatim>\<open>decode_string\<close> does; every match is at least one
  character long and lies within the text; the text it leaves is one at whose start no
  rule matches; and it stops at a character that no rule can take, unless that character
  is inside a quoted string.
\<close>

lemma emit_Inl: "emit xs r = Inl e \<Longrightarrow> r = Inl e"
  by (cases r) simp_all

lemma unicode_escape_Inl: "unicode_escape ucd s = Inl e \<Longrightarrow> e = UnicodeDecodeError"
proof (induction ucd s rule: unicode_escape.induct)
  case (1 ucd)
  then show ?case by simp
next
  case (2 ucd c s)
  show ?case
  proof (cases "c \<noteq> CHR 0x5C")
    case True
    with 2 show ?thesis by (auto dest!: emit_Inl)
  next
    case False
    show ?thesis
    proof (cases s)
      case Nil
      with False "2.prems" show ?thesis by simp
    next
      case (Cons e' s')
      with False "2.prems" "2.IH"(2-) show ?thesis
        by (auto simp: Let_def split: if_splits option.splits dest!: emit_Inl)
    qed
  qed
qed

lemma decode_string_Inl:
  "decode_string ucd s = Inl e \<Longrightarrow> e = UnicodeDecodeError \<or> e = UnicodeEncodeError"
  by (auto simp: decode_string_def native_str_def split: sum.splits if_splits
      dest: unicode_escape_Inl)

lemma first_match_Some:
  "first_match rules s = Some (action, j) \<Longrightarrow> \<exists>r \<in> set rules. fst r s = Some j \<and> snd r = action"
  by (induction rules) (auto split: option.splits)

lemma cstring_action_Inl:
  "(case decode_string ucd t of Inl e \<Rightarrow> Inl e | Inr s \<Rightarrow> Inr (CSTRING, Txt s)) = Inl e
     \<Longrightarrow> e = UnicodeDecodeError \<or> e = UnicodeEncodeError"
  by (cases "decode_string ucd t") (auto dest: decode_string_Inl)

lemma first_match_action_Inl:
  assumes "first_match (mi_scanner ucd) s = Some (action, j)" and "action t = Inl e"
  shows "e = UnicodeDecodeError \<or> e = UnicodeEncodeError"
proof -
  from first_match_Some [OF assms(1)] obtain r where
    "r \<in> set (mi_scanner ucd)" "snd r = action" by blast
  with assms(2) show ?thesis
    unfolding mi_scanner_def
    by (auto dest: cstring_action_Inl)
qed

lemma scan_None: "first_match (mi_scanner ucd) s = None \<Longrightarrow> scan ucd s = Inr ([], s)"
  by (subst scan.simps) simp

lemma scan_Some:
  "first_match (mi_scanner ucd) s = Some (action, j) \<Longrightarrow> j \<noteq> 0 \<Longrightarrow>
   scan ucd s =
     (case action (take j s) of
        Inl e \<Rightarrow> Inl e
      | Inr tok \<Rightarrow>
          (case scan ucd (drop j s) of
             Inl e \<Rightarrow> Inl e
           | Inr (toks, remainder) \<Rightarrow> Inr (tok # toks, remainder)))"
  by (subst scan.simps) simp

lemma scan_Some_0:
  "first_match (mi_scanner ucd) s = Some (action, 0) \<Longrightarrow> scan ucd s = Inr ([], s)"
  by (subst scan.simps) simp

lemma scan_Inl: "scan ucd s = Inl e \<Longrightarrow> e = UnicodeDecodeError \<or> e = UnicodeEncodeError"
proof (induction ucd s rule: scan.induct)
  case (1 ucd s)
  show ?case
  proof (cases "first_match (mi_scanner ucd) s")
    case None
    from scan_None [OF None] "1.prems" show ?thesis by simp
  next
    case (Some a)
    obtain action j where a: "a = (action, j)" by (cases a)
    show ?thesis
    proof (cases "j = 0")
      case True
      with Some a have "scan ucd s = Inr ([], s)" by (simp add: scan_Some_0)
      with "1.prems" show ?thesis by simp
    next
      case False
      note eq = scan_Some [OF Some [unfolded a] False]
      show ?thesis
      proof (cases "action (take j s)")
        case (Inl e')
        with eq "1.prems" have "e' = e" by simp
        with first_match_action_Inl [OF Some [unfolded a] Inl] show ?thesis by simp
      next
        case (Inr tok)
        with eq "1.prems" have "scan ucd (drop j s) = Inl e"
          by (cases "scan ucd (drop j s)") auto
        with "1.IH" [OF Some a [symmetric] False Inr] show ?thesis .
      qed
    qed
  qed
qed

lemma cstring_rest_pos: "cstring_rest s = Some n \<Longrightarrow> 0 < n"
  by (induction s arbitrary: n rule: cstring_rest.induct) (auto split: if_splits list.splits)

lemma re_literal_pos: "re_literal lit s = Some j \<Longrightarrow> lit \<noteq> [] \<Longrightarrow> 0 < j"
  by (auto simp: re_literal_def split: if_splits)

lemma re_digits_pos: "re_digits s = Some j \<Longrightarrow> 0 < j"
  by (auto simp: re_digits_def Let_def split: if_splits)

lemma re_identifier_pos: "re_identifier s = Some j \<Longrightarrow> 0 < j"
  by (auto simp: re_identifier_def split: list.splits if_splits)

lemma re_cstring_pos: "re_cstring s = Some j \<Longrightarrow> 0 < j"
  by (auto simp: re_cstring_def split: list.splits if_splits)

lemma first_match_pos:
  assumes "first_match (mi_scanner ucd) s = Some (action, j)"
  shows "0 < j"
proof -
  from first_match_Some [OF assms] obtain r where
    "r \<in> set (mi_scanner ucd)" "fst r s = Some j" by blast
  then show ?thesis
    unfolding mi_scanner_def
    by (auto dest: re_literal_pos re_digits_pos re_identifier_pos re_cstring_pos)
qed

lemma scan_remainder:
  "scan ucd s = Inr (tokens, remainder) \<Longrightarrow> first_match (mi_scanner ucd) remainder = None"
proof (induction ucd s arbitrary: tokens rule: scan.induct)
  case (1 ucd s)
  show ?case
  proof (cases "first_match (mi_scanner ucd) s")
    case None
    from scan_None [OF None] "1.prems" None show ?thesis by simp
  next
    case (Some a)
    obtain action j where a: "a = (action, j)" by (cases a)
    from Some a first_match_pos have j: "j \<noteq> 0" by fastforce
    note eq = scan_Some [OF Some [unfolded a] j]
    from eq "1.prems" obtain tok where tok: "action (take j s) = Inr tok"
      by (cases "action (take j s)") auto
    with eq "1.prems" obtain toks where "scan ucd (drop j s) = Inr (toks, remainder)"
      by (cases "scan ucd (drop j s)") auto
    with "1.IH" [OF Some a [symmetric] j tok] show ?thesis .
  qed
qed

lemma scan_no_tokens: "scan ucd s = Inr ([], remainder) \<Longrightarrow> remainder = s"
proof (cases "first_match (mi_scanner ucd) s")
  case None
  assume "scan ucd s = Inr ([], remainder)"
  with scan_None [OF None] show ?thesis by simp
next
  case (Some a)
  assume s: "scan ucd s = Inr ([], remainder)"
  obtain action j where a: "a = (action, j)" by (cases a)
  from Some a first_match_pos have j: "j \<noteq> 0" by fastforce
  from scan_Some [OF Some [unfolded a] j] s show ?thesis
    by (auto split: sum.splits)
qed

text \<open>
  A character that no rule can take stops every pattern but the quoted string, which
  takes any character up to its closing quote. So when such a character, and any text
  after it, is appended to a text, each pattern that matched at the start of the text
  matches the same characters, and where none matched none does, unless the text starts
  with a double quote. The scan of the longer text then raises the error or returns the
  tokens of the scan of the shorter one.
\<close>

lemma takeWhile_ext: "\<not> P c \<Longrightarrow> takeWhile P (s @ c # post) = takeWhile P s"
  by (induction s) auto


lemma re_digits_ext: "\<not> lexical_char c \<Longrightarrow> re_digits (s @ c # post) = re_digits s"
  by (simp add: re_digits_def lexical_char_def takeWhile_ext)


lemma re_literal_ext:
  assumes "c \<notin> set lit"
  shows "re_literal lit (s @ c # post) = re_literal lit s"
proof (cases "length lit \<le> length s")
  case True
  then show ?thesis by (simp add: re_literal_def)
next
  case False
  then obtain k where k: "length lit - length s = Suc k"
    by (cases "length lit - length s") auto
  from False have a: "take (length lit) s = s" by simp
  from False k have b: "take (length lit) (s @ c # post) = s @ c # take k post" by simp
  from False have "s \<noteq> lit" by auto
  moreover from assms have "s @ c # take k post \<noteq> lit" by auto
  ultimately show ?thesis unfolding re_literal_def a b by simp
qed

lemma re_identifier_ext:
  "\<not> lexical_char c \<Longrightarrow> re_identifier (s @ c # post) = re_identifier s"
  by (cases s) (simp_all add: re_identifier_def lexical_char_def ident_char_def takeWhile_ext)


lemma cstring_rest_ext: "cstring_rest s = Some n \<Longrightarrow> cstring_rest (s @ x) = Some n"
  by (induction s arbitrary: n rule: cstring_rest.induct)
    (auto split: if_splits list.splits)


lemma re_cstring_ext:
  assumes "\<not> lexical_char c" and "re_cstring s \<noteq> None \<or> s = [] \<or> hd s \<noteq> CHR 0x22"
  shows "re_cstring (s @ c # post) = re_cstring s"
proof (cases s)
  case Nil
  with assms(1) show ?thesis by (simp add: re_cstring_def lexical_char_def)
next
  case (Cons a cs)
  show ?thesis
  proof (cases "a = CHR 0x22")
    case False
    with Cons show ?thesis by (simp add: re_cstring_def)
  next
    case True
    with Cons assms(2) obtain n where "cstring_rest cs = Some n"
      by (auto simp: re_cstring_def)
    with Cons True cstring_rest_ext [of cs n "c # post"] show ?thesis
      by (simp add: re_cstring_def)
  qed
qed


lemma first_match_cong:
  "(\<And>r. r \<in> set rules \<Longrightarrow> fst r s' = fst r s) \<Longrightarrow> first_match rules s' = first_match rules s"
  by (induction rules) (auto split: option.splits)


lemma first_match_ext:
  assumes c: "\<not> lexical_char c" and q: "re_cstring s \<noteq> None \<or> s = [] \<or> hd s \<noteq> CHR 0x22"
  shows "first_match (mi_scanner ucd) (s @ c # post) = first_match (mi_scanner ucd) s"
proof (rule first_match_cong)
  from c have l: "c \<notin> set ''\<newline>()[]{},^*+=~@&gdb''"
    by (simp add: lexical_char_def ident_char_def ident_start_def)
  have "list_all (\<lambda>r. fst r (s @ c # post) = fst r s) (mi_scanner ucd)"
    using l
    by (simp add: mi_scanner_def re_digits_ext [OF c] re_identifier_ext [OF c]
        re_cstring_ext [OF c q] re_literal_ext)
  then show "fst r (s @ c # post) = fst r s" if "r \<in> set (mi_scanner ucd)" for r
    using that by (simp add: list_all_iff)
qed


lemma first_match_quote:
  assumes "first_match (mi_scanner ucd) s = Some (action, j)"
  shows "re_cstring s \<noteq> None \<or> s = [] \<or> hd s \<noteq> CHR 0x22"
proof (cases s)
  case Nil
  then show ?thesis by simp
next
  case (Cons a cs)
  show ?thesis
  proof (cases "a = CHR 0x22")
    case False
    with Cons show ?thesis by simp
  next
    case True
    have "list_all (\<lambda>r. fst r s = Some j \<longrightarrow> re_cstring s \<noteq> None) (mi_scanner ucd)"
      using Cons True
      by (simp add: mi_scanner_def re_digits_def re_literal_def re_identifier_def digit_def
          ident_start_def)
    moreover from first_match_Some [OF assms] obtain r where
      "r \<in> set (mi_scanner ucd)" "fst r s = Some j" by blast
    ultimately show ?thesis by (auto simp: list_all_iff)
  qed
qed


lemma cstring_rest_le: "cstring_rest s = Some n \<Longrightarrow> n \<le> length s"
  by (induction s arbitrary: n rule: cstring_rest.induct)
    (auto split: if_splits list.splits)


lemma first_match_le:
  assumes "first_match (mi_scanner ucd) s = Some (action, j)"
  shows "j \<le> length s"
proof -
  have lit: "re_literal lit s = Some j \<Longrightarrow> j \<le> length s" for lit
    by (auto simp: re_literal_def split: if_splits)
  have dig: "re_digits s = Some j \<Longrightarrow> j \<le> length s"
    using length_takeWhile_le [of digit s]
    by (auto simp: re_digits_def Let_def split: if_splits)
  have ide: "re_identifier s = Some j \<Longrightarrow> j \<le> length s"
    using length_takeWhile_le [of ident_char "tl s"]
    by (auto simp: re_identifier_def split: list.splits if_splits)
  have cst: "re_cstring s = Some j \<Longrightarrow> j \<le> length s"
    by (auto simp: re_cstring_def split: list.splits if_splits dest: cstring_rest_le)
  from first_match_Some [OF assms] obtain r where
    "r \<in> set (mi_scanner ucd)" "fst r s = Some j" by blast
  then show ?thesis
    unfolding mi_scanner_def
    by (auto dest: lit dig ide cst)
qed




lemma scan_ext:
  assumes c: "\<not> lexical_char c"
  shows "(scan ucd s = Inl e \<longrightarrow> scan ucd (s @ c # post) = Inl e)
    \<and> (scan ucd s = Inr (tokens, remainder) \<longrightarrow> (remainder = [] \<or> hd remainder \<noteq> CHR 0x22) \<longrightarrow>
         scan ucd (s @ c # post) = Inr (tokens, remainder @ c # post))"
proof (induction ucd s arbitrary: tokens rule: scan.induct)
  case (1 ucd s)
  show ?case
  proof (cases "first_match (mi_scanner ucd) s")
    case None
    note s = scan_None [OF None]
    show ?thesis
    proof (intro conjI impI)
      assume "scan ucd s = Inl e"
      with s show "scan ucd (s @ c # post) = Inl e" by simp
    next
      assume "scan ucd s = Inr (tokens, remainder)"
        and q: "remainder = [] \<or> hd remainder \<noteq> CHR 0x22"
      with s have e: "tokens = []" "remainder = s" by simp_all
      from q e have "re_cstring s \<noteq> None \<or> s = [] \<or> hd s \<noteq> CHR 0x22" by simp
      from first_match_ext [OF c this, of ucd post] None
      have "first_match (mi_scanner ucd) (s @ c # post) = None" by simp
      from scan_None [OF this] e show "scan ucd (s @ c # post) = Inr (tokens, remainder @ c # post)"
        by simp
    qed
  next
    case (Some a)
    obtain action j where a: "a = (action, j)" by (cases a)
    note m = Some [unfolded a]
    from m first_match_pos have j: "j \<noteq> 0" by fastforce
    from first_match_le [OF m] have le: "j \<le> length s" .
    from first_match_ext [OF c first_match_quote [OF m], of ucd post] m
    have m': "first_match (mi_scanner ucd) (s @ c # post) = Some (action, j)" by simp
    from le have t: "take j (s @ c # post) = take j s"
      and d: "drop j (s @ c # post) = drop j s @ c # post" by simp_all
    note eq = scan_Some [OF m j]
    note eq' = scan_Some [OF m' j, unfolded t d]
    show ?thesis
    proof (cases "action (take j s)")
      case (Inl e')
      with eq eq' show ?thesis by simp
    next
      case tok: (Inr tok)
      note IH = "1.IH" [OF Some a [symmetric] j tok]
      show ?thesis
      proof (cases "scan ucd (drop j s)")
        case (Inl e')
        from IH [of tokens] have "scan ucd (drop j s) = Inl e \<longrightarrow> scan ucd (drop j s @ c # post) = Inl e"
          by blast
        with Inl eq eq' tok show ?thesis by simp
      next
        case (Inr x)
        obtain toks r where x: "x = (toks, r)" by (cases x)
        from IH [of toks] have
          "scan ucd (drop j s) = Inr (toks, remainder) \<longrightarrow>
             (remainder = [] \<or> hd remainder \<noteq> CHR 0x22) \<longrightarrow>
             scan ucd (drop j s @ c # post) = Inr (toks, remainder @ c # post)"
          by blast
        with Inr x eq eq' tok show ?thesis by auto
      qed
    qed
  qed
qed

section \<open>What a successful parse has read\<close>

text \<open>
  The facts of the value rules carry over to the records and to \<^verbatim>\<open>_output\<close>: an
  out-of-band record consumes neither a caret nor a prompt token, a result record consumes
  exactly one caret and no prompt token, and \<^verbatim>\<open>_output\<close>, when it returns, has read up
  to the first prompt token and the newline after it.
\<close>

lemma sound_expect: "k \<in> K \<Longrightarrow> sound K ts (expect k ts)"
  by (cases ts) (auto simp: expect_Cons intro: eats_Cons)

lemma eats_token_maybe: "token_maybe ts = (t, r) \<Longrightarrow> eats {TOKEN} ts r"
  by (cases ts) (auto simp: token_maybe_def accept_def eats_Cons split: if_splits)

lemma sound0_token_maybe:
  assumes "\<And>t r. token_maybe ts = (t, r) \<Longrightarrow> sound K r (f t r)" and "TOKEN \<in> K"
  shows "sound K ts (case token_maybe ts of (t, r) \<Rightarrow> f t r)"
proof -
  obtain t r where tm: "token_maybe ts = (t, r)" by (cases "token_maybe ts")
  from eats_token_maybe [OF tm] assms(2) have e: "eats K ts r"
    by (auto intro: eats_mono)
  from assms(1) [OF tm] e show ?thesis
    unfolding tm by (auto simp: sound_def split: sum.splits intro: eats_trans dest: eats_length)
qed

lemma sound_async_output:
  "sound (insert TOKEN (insert prefix (insert NL value_kinds))) ts (async_output prefix ts)"
  unfolding async_output_def
  apply (rule sound0_token_maybe)
   apply (rule sound_bind)
    apply (rule sound_expect)
    apply simp
   apply (rule sound0_bind)
    apply (simp only: p_string_def)
    apply (rule sound0_bind)
     apply (rule sound_sound0)
     apply (rule sound_expect)
     apply simp
    apply simp
   apply (rule sound0_bind)
    apply (rule sound_sound0)
    apply (rule sound_mono [OF parser_sound(8)])
    apply blast
   apply simp
  apply simp
  done

lemma sound_stream_output:
  "sound {prefix, CSTRING, NL} ts (stream_output pedantic prefix ts)"
  unfolding stream_output_def
  apply (rule sound_bind)
   apply (rule sound_expect)
   apply simp
  apply (simp only: p_cstring_def)
  apply (rule sound0_bind)
   apply (rule sound0_bind)
    apply (rule sound_sound0)
    apply (rule sound_expect)
    apply simp
   apply simp
  subgoal for v r v' r'
    by (cases r') (auto simp: accept_def intro: eats_Cons)
  done

lemma sound_out_of_band_record:
  "sound oob_kinds ts (out_of_band_record pedantic ts)"
  unfolding out_of_band_record_def Let_def
  by (auto intro!: sound_mono [OF sound_async_output] sound_mono [OF sound_stream_output]
      simp: oob_kinds_def)

lemma sound_Inl_D: "sound K ts res \<Longrightarrow> res = Inl e \<Longrightarrow> \<exists>m. e = SyntaxError m"
  by simp

lemma sound_Inr_D: "sound K ts res \<Longrightarrow> res = Inr (v, r) \<Longrightarrow> \<exists>pre. ts = pre @ r \<and> fst ` set pre \<subseteq> K"
  by (simp add: eats_def)

lemma sound0_Inl_D: "sound0 K ts res \<Longrightarrow> res = Inl e \<Longrightarrow> \<exists>m. e = SyntaxError m"
  by simp

lemma sound0_Inr_D: "sound0 K ts res \<Longrightarrow> res = Inr (v, r) \<Longrightarrow> \<exists>pre. ts = pre @ r \<and> fst ` set pre \<subseteq> K"
  by (simp add: eats_def)

lemma expect_Inl_D: "expect k ts = Inl e \<Longrightarrow> \<exists>m. e = SyntaxError m"
  using sound_expect [of k UNIV ts] by simp

lemma p_string_Inl_D: "p_string ts = Inl e \<Longrightarrow> \<exists>m. e = SyntaxError m"
  by (auto simp: p_string_def split: sum.splits dest: expect_Inl_D)

lemma carets_append [simp]: "carets (xs @ ys) = carets xs + carets ys"
  by (simp add: carets_def)

lemma carets_Cons [simp]: "carets (t # ts) = (if fst t = CARET then 1 else 0) + carets ts"
  by (simp add: carets_def)

lemma carets_Nil [simp]: "carets [] = 0"
  by (simp add: carets_def)

lemma carets_0: "fst ` set pre \<subseteq> K \<Longrightarrow> CARET \<notin> K \<Longrightarrow> carets pre = 0"
  by (induction pre) auto

lemma CARET_notin [simp]: "CARET \<notin> value_kinds" "CARET \<notin> oob_kinds"
  "PROMPT \<notin> value_kinds" "PROMPT \<notin> oob_kinds"
  by (simp_all add: value_kinds_def oob_kinds_def)

lemma sound0_output_loop1: "sound0 oob_kinds ts (output_loop1 pedantic acc ts)"
proof (induction pedantic acc ts rule: output_loop1.induct)
  case (1 pedantic oob_records ts)
  show ?case
    apply (subst output_loop1.simps)
    apply (simp only: split: if_splits)
    apply (intro conjI impI)
     apply (rule sound0_bind)
      apply (rule sound_sound0 [OF sound_out_of_band_record])
     apply (rule 1)
      apply simp_all
    done
qed

lemma sound0_output_loop2: "sound0 oob_kinds ts (output_loop2 pedantic acc ts)"
proof (induction pedantic acc ts rule: output_loop2.induct)
  case (1 pedantic oob_records ts)
  show ?case
    apply (subst output_loop2.simps)
    apply (simp only: split: if_splits)
    apply (intro conjI impI)
     apply (rule sound0_bind)
      apply (rule sound_sound0 [OF sound_out_of_band_record])
     apply (rule 1)
      apply simp_all
    done
qed

lemma result_record_Inl: "result_record ts = Inl e \<Longrightarrow> \<exists>m. e = SyntaxError m"
  unfolding result_record_def
  by (auto split: prod.splits sum.splits if_splits
      dest: expect_Inl_D p_string_Inl_D sound_Inl_D [OF parser_sound(8)])

lemma result_record_shape:
  assumes "result_record ts = Inr (rr, r)"
  obtains pre0 c s pre3 n where "ts = pre0 @ c # s # pre3 @ n # r"
    and "fst ` set pre0 \<subseteq> {TOKEN}" and "fst c = CARET" and "fst s = STRING"
    and "fst ` set pre3 \<subseteq> insert NL value_kinds" and "fst n = NL"
proof -
  obtain tok ts1 where tm: "token_maybe ts = (tok, ts1)" by (cases "token_maybe ts")
  from eats_token_maybe [OF tm] obtain pre0 where
    0: "ts = pre0 @ ts1" "fst ` set pre0 \<subseteq> {TOKEN}" by (auto simp: eats_def)
  from assms tm obtain c s ts3 where 1: "ts1 = c # s # ts3" "fst c = CARET" "fst s = STRING"
    by (auto simp: result_record_def split: sum.splits)
  from assms tm 1 have "\<exists>n. fst n = NL \<and>
      (ts3 = n # r \<or> (\<exists>rs. comma_prefixed_results NL ts3 = Inr (rs, n # r)))"
    apply (clarsimp simp: result_record_def expect_Cons p_string_def
        split: sum.splits if_splits)
     apply force
    apply force
    done
  then obtain n where 4: "fst n = NL"
    and 5: "ts3 = n # r \<or> (\<exists>rs. comma_prefixed_results NL ts3 = Inr (rs, n # r))"
    by blast
  from 5 have "\<exists>pre3. ts3 = pre3 @ n # r \<and> fst ` set pre3 \<subseteq> insert NL value_kinds"
  proof
    assume "ts3 = n # r"
    then show ?thesis by simp
  next
    assume "\<exists>rs. comma_prefixed_results NL ts3 = Inr (rs, n # r)"
    then obtain rs where "comma_prefixed_results NL ts3 = Inr (rs, n # r)" ..
    from sound_Inr_D [OF parser_sound(8) this] show ?thesis .
  qed
  then obtain pre3 where 3: "ts3 = pre3 @ n # r"
    "fst ` set pre3 \<subseteq> insert NL value_kinds"
    by blast
  from 0 1 3 have e: "ts = pre0 @ c # s # pre3 @ n # r" by simp
  from e 0(2) 1(2) 1(3) 3(2) 4 show ?thesis by (rule that)
qed

lemma result_record_Inr:
  assumes "result_record ts = Inr (rr, r)"
  shows "\<exists>pre. ts = pre @ r \<and> carets pre = 1 \<and> PROMPT \<notin> fst ` set pre"
proof -
  from assms obtain pre0 c s pre3 n where
    e: "ts = pre0 @ c # s # pre3 @ n # r" and 0: "fst ` set pre0 \<subseteq> {TOKEN}"
    and 1: "fst c = CARET" "fst s = STRING"
    and 3: "fst ` set pre3 \<subseteq> insert NL value_kinds" and 4: "fst n = NL"
    by (rule result_record_shape)
  have "ts = (pre0 @ c # s # pre3 @ [n]) @ r"
    using e by simp
  moreover have "carets (pre0 @ c # s # pre3 @ [n]) = 1"
    using 0 1 3 4 carets_0 [of pre0 "{TOKEN}"] carets_0 [of pre3 "insert NL value_kinds"]
    by simp
  moreover have "PROMPT \<notin> fst ` set (pre0 @ c # s # pre3 @ [n])"
    using 0 1 3 4 by auto
  ultimately show ?thesis by blast
qed

lemma result_record_no_stream_sigil:
  assumes "result_record ts = Inr (rr, r)"
  shows "\<exists>pre. ts = pre @ r \<and> PROMPT \<notin> fst ` set pre
    \<and> (\<forall>t \<in> set pre. \<not> stream_sigil (fst t))"
proof -
  from assms obtain pre0 c s pre3 n where
    e: "ts = pre0 @ c # s # pre3 @ n # r" and 0: "fst ` set pre0 \<subseteq> {TOKEN}"
    and 1: "fst c = CARET" "fst s = STRING"
    and 3: "fst ` set pre3 \<subseteq> insert NL value_kinds" and 4: "fst n = NL"
    by (rule result_record_shape)
  have k: "x \<noteq> PROMPT \<and> \<not> stream_sigil x"
    if "x \<in> {TOKEN, CARET, STRING, NL} \<union> value_kinds" for x
    using that by (auto simp: value_kinds_def)
  have "ts = (pre0 @ c # s # pre3 @ [n]) @ r"
    using e by simp
  moreover have "fst ` set (pre0 @ c # s # pre3 @ [n]) \<subseteq> {TOKEN, CARET, STRING, NL} \<union> value_kinds"
    using 0 1 3 4 by auto
  ultimately show ?thesis
    using k by (intro exI [of _ "pre0 @ c # s # pre3 @ [n]"]) blast
qed

lemma p_output_Inl: "p_output pedantic ts = Inl e \<Longrightarrow> \<exists>m. e = SyntaxError m"
  unfolding p_output_def
  by (auto split: prod.splits sum.splits if_splits
      dest: expect_Inl_D result_record_Inl sound0_Inl_D [OF sound0_output_loop1]
        sound0_Inl_D [OF sound0_output_loop2])

lemma MIParser_parse_no_assertion: "MIParser_parse toks pedantic \<noteq> Inl AssertionError"
  by (auto simp: MIParser_parse_def split: sum.splits dest: p_output_Inl)

lemma prompt_line_D:
  assumes "(case expect PROMPT ts3 of
              Inl e \<Rightarrow> Inl e
            | Inr (x, ts4) \<Rightarrow>
                (case expect NL ts4 of
                   Inl e \<Rightarrow> Inl e
                 | Inr (y, ts5) \<Rightarrow> Inr (d, ts5))) = Inr (d', r)"
  shows "d' = d \<and> (\<exists>pt nl. ts3 = pt # nl # r \<and> fst pt = PROMPT \<and> fst nl = NL)"
proof (cases ts3)
  case Nil
  with assms show ?thesis by simp
next
  case 1: (Cons pt ts4)
  show ?thesis
  proof (cases ts4)
    case Nil
    with assms 1 show ?thesis by (simp add: expect_Cons split: if_splits)
  next
    case (Cons nl ts5)
    with assms 1 show ?thesis by (simp add: expect_Cons split: if_splits)
  qed
qed

lemma prompt_line_I:
  "ts = pt # nl # r \<Longrightarrow> fst pt = PROMPT \<Longrightarrow> fst nl = NL \<Longrightarrow>
   (case expect PROMPT ts of
      Inl e \<Rightarrow> Inl e
    | Inr (x, ts4) \<Rightarrow>
        (case expect NL ts4 of
           Inl e \<Rightarrow> Inl e
         | Inr (y, ts5) \<Rightarrow> Inr (d, ts5))) = Inr (d, r)"
  by (simp add: expect_Cons)

lemma p_output_InrD:
  assumes "p_output pedantic ts = Inr ((oob, res), r)"
  shows "\<exists>oob1 ts1 ts2 ts3 pt nl.
      output_loop1 pedantic [] ts = Inr (oob1, ts1)
    \<and> (if check CARET ts1 then \<exists>rr. result_record ts1 = Inr (rr, ts2) \<and> res = Some rr
        else res = None \<and> ts2 = ts1)
    \<and> (if \<not> pedantic then output_loop2 pedantic oob1 ts2 = Inr (oob, ts3)
        else oob = oob1 \<and> ts3 = ts2)
    \<and> ts3 = pt # nl # r \<and> fst pt = PROMPT \<and> fst nl = NL"
proof -
  from assms obtain oob1 ts1 where l1: "output_loop1 pedantic [] ts = Inr (oob1, ts1)"
    by (cases "output_loop1 pedantic [] ts") (auto simp: p_output_def)
  have "\<exists>res' ts2. (if check CARET ts1 then \<exists>rr. result_record ts1 = Inr (rr, ts2) \<and> res' = Some rr
        else res' = None \<and> ts2 = ts1)
      \<and> (case (if \<not> pedantic then output_loop2 pedantic oob1 ts2
                      else Inr (oob1, ts2)) of
                  Inl e \<Rightarrow> Inl e
                | Inr (oob_records, ts3) \<Rightarrow>
                    (case expect PROMPT ts3 of
                       Inl e \<Rightarrow> Inl e
                     | Inr (x, ts4) \<Rightarrow>
                         (case expect NL ts4 of
                            Inl e \<Rightarrow> Inl e
                          | Inr (y, ts5) \<Rightarrow> Inr ((oob_records, res'), ts5)))) = Inr ((oob, res), r)"
  proof (cases "check CARET ts1")
    case True
    with assms l1 obtain rr ts2 where rr: "result_record ts1 = Inr (rr, ts2)"
      by (cases "result_record ts1") (auto simp: p_output_def)
    with assms l1 True show ?thesis
      by (simp add: p_output_def)
  next
    case False
    with assms l1 show ?thesis
      by (simp add: p_output_def)
  qed
  then obtain res' ts2 where
    2: "if check CARET ts1 then \<exists>rr. result_record ts1 = Inr (rr, ts2) \<and> res' = Some rr
        else res' = None \<and> ts2 = ts1"
    and rest: "(case (if \<not> pedantic then output_loop2 pedantic oob1 ts2
                      else Inr (oob1, ts2)) of
                  Inl e \<Rightarrow> Inl e
                | Inr (oob_records, ts3) \<Rightarrow>
                    (case expect PROMPT ts3 of
                       Inl e \<Rightarrow> Inl e
                     | Inr (x, ts4) \<Rightarrow>
                         (case expect NL ts4 of
                            Inl e \<Rightarrow> Inl e
                          | Inr (y, ts5) \<Rightarrow> Inr ((oob_records, res'), ts5)))) = Inr ((oob, res), r)"
    by blast
  from rest obtain oob3 ts3 where
    3: "(if \<not> pedantic then output_loop2 pedantic oob1 ts2 else Inr (oob1, ts2)) = Inr (oob3, ts3)"
    by (cases "if \<not> pedantic then output_loop2 pedantic oob1 ts2 else Inr (oob1, ts2)") auto
  from rest 3 have "(oob3, res') = (oob, res)
      \<and> (\<exists>pt nl. ts3 = pt # nl # r \<and> fst pt = PROMPT \<and> fst nl = NL)"
    using prompt_line_D [where ?ts3.0 = ts3 and d = "(oob3, res')" and d' = "(oob, res)" and r = r]
    by simp
  then obtain pt nl where 5: "oob3 = oob" "res' = res" "ts3 = pt # nl # r"
    "fst pt = PROMPT" "fst nl = NL"
    by auto
  have 6: "if \<not> pedantic then output_loop2 pedantic oob1 ts2 = Inr (oob, ts3)
        else oob = oob1 \<and> ts3 = ts2"
    using 3 5 by (cases pedantic) auto
  have 7: "if check CARET ts1 then \<exists>rr. result_record ts1 = Inr (rr, ts2) \<and> res = Some rr
        else res = None \<and> ts2 = ts1"
    using 2 5(2) by (cases "check CARET ts1") auto
  show ?thesis
    apply (rule exI [of _ oob1], rule exI [of _ ts1], rule exI [of _ ts2], rule exI [of _ ts3],
        rule exI [of _ pt], rule exI [of _ nl])
    using l1 5 6 7 by simp
qed

lemma p_output_Inr:
  assumes "p_output pedantic ts = Inr ((oob, res), r)"
  shows "\<exists>body pt nl. ts = body @ pt # nl # r \<and> fst pt = PROMPT \<and> fst nl = NL
           \<and> PROMPT \<notin> fst ` set body
           \<and> carets body = (case res of None \<Rightarrow> 0 | Some rr \<Rightarrow> 1)"
proof -
  from p_output_InrD [OF assms] obtain oob1 ts1 ts2 ts3 pt nl where
    l1: "output_loop1 pedantic [] ts = Inr (oob1, ts1)"
    and 2: "if check CARET ts1 then \<exists>rr. result_record ts1 = Inr (rr, ts2) \<and> res = Some rr
        else res = None \<and> ts2 = ts1"
    and 3: "if \<not> pedantic then output_loop2 pedantic oob1 ts2 = Inr (oob, ts3)
        else oob = oob1 \<and> ts3 = ts2"
    and 4: "ts3 = pt # nl # r" "fst pt = PROMPT" "fst nl = NL"
    by blast
  from sound0_Inr_D [OF sound0_output_loop1 l1] obtain pre1 where
    p1: "ts = pre1 @ ts1" "fst ` set pre1 \<subseteq> oob_kinds" by blast
  have "\<exists>pre2. ts1 = pre2 @ ts2 \<and> PROMPT \<notin> fst ` set pre2
      \<and> carets pre2 = (case res of None \<Rightarrow> 0 | Some rr \<Rightarrow> 1)"
  proof (cases "check CARET ts1")
    case True
    with 2 obtain rr where "res = Some rr" "result_record ts1 = Inr (rr, ts2)" by auto
    with result_record_Inr [of ts1 rr ts2] show ?thesis by auto
  next
    case False
    with 2 show ?thesis by simp
  qed
  then obtain pre2 where
    p2: "ts1 = pre2 @ ts2" "PROMPT \<notin> fst ` set pre2"
      "carets pre2 = (case res of None \<Rightarrow> 0 | Some rr \<Rightarrow> 1)" by blast
  have "\<exists>pre3. ts2 = pre3 @ ts3 \<and> fst ` set pre3 \<subseteq> oob_kinds"
  proof (cases pedantic)
    case True
    with 3 show ?thesis by simp
  next
    case False
    with 3 have "output_loop2 pedantic oob1 ts2 = Inr (oob, ts3)" by simp
    from sound0_Inr_D [OF sound0_output_loop2 this] show ?thesis .
  qed
  then obtain pre3 where
    p3: "ts2 = pre3 @ ts3" "fst ` set pre3 \<subseteq> oob_kinds" by blast
  have "ts = (pre1 @ pre2 @ pre3) @ pt # nl # r"
    using p1 p2 p3 4 by simp
  moreover have "PROMPT \<notin> fst ` set (pre1 @ pre2 @ pre3)"
    using p1 p2 p3 by auto
  moreover have "carets (pre1 @ pre2 @ pre3) = (case res of None \<Rightarrow> 0 | Some rr \<Rightarrow> 1)"
    using p1 p2 p3 carets_0 [of pre1 oob_kinds] carets_0 [of pre3 oob_kinds] by simp
  ultimately show ?thesis
    using 4 by blast
qed

lemma output_loop1_ends:
  "output_loop1 pedantic acc ts = Inr (oob, ts1) \<Longrightarrow> check CARET ts1 \<or> check PROMPT ts1"
proof (induction pedantic acc ts rule: output_loop1.induct)
  case (1 pedantic oob_records ts)
  show ?case
  proof (cases "check CARET ts \<or> check PROMPT ts")
    case True
    with "1.prems" show ?thesis by (simp add: output_loop1.simps [of _ _ ts])
  next
    case False
    with "1.prems" obtain r ts' where
      "out_of_band_record pedantic ts = Inr (r, ts')"
      "output_loop1 pedantic (oob_records @ [r]) ts' = Inr (oob, ts1)"
      by (cases "out_of_band_record pedantic ts") (auto simp: output_loop1.simps [of _ _ ts])
    with False "1.IH" show ?thesis by simp
  qed
qed

lemma out_of_band_record_marker:
  "out_of_band_record pedantic ts = Inr x \<Longrightarrow> \<not> check CARET ts \<and> \<not> check PROMPT ts"
  by (cases ts) (auto simp: out_of_band_record_def Let_def split: if_splits)

text \<open>All the ways in which \<^verbatim>\<open>parse\<close> can fail.\<close>

lemma parse_failure_kinds:
  assumes "parse ucd text pedantic = Inl e"
  shows "e = AssertionError \<or> (e = StopIteration \<and> text = []) \<or> (\<exists>m. e = SyntaxError m)
    \<or> e = UnicodeDecodeError \<or> e = UnicodeEncodeError"
proof (cases "scan ucd text")
  case (Inl e')
  then have "parse ucd text pedantic = Inl e'" by (simp add: parse_def)
  with assms have "e = e'" by simp
  with scan_Inl [OF Inl] show ?thesis by blast
next
  case (Inr x)
  obtain tokens remainder where x: "x = (tokens, remainder)" by (cases x)
  with Inr have s: "scan ucd text = Inr (tokens, remainder)" by simp
  show ?thesis
  proof (cases "remainder = []")
    case False
    with s have "parse ucd text pedantic = Inl AssertionError" by (simp add: parse_def)
    with assms show ?thesis by simp
  next
    case True
    with s have p: "parse ucd text pedantic = MIParser_parse tokens pedantic"
      by (simp add: parse_def)
    show ?thesis
    proof (cases "tokens = []")
      case t: True
      from s t have "scan ucd text = Inr ([], remainder)" by simp
      then have "remainder = text" by (rule scan_no_tokens)
      with True have "text = []" by simp
      moreover from p t assms have "e = StopIteration" by (simp add: MIParser_parse_def)
      ultimately show ?thesis by simp
    next
      case False
      with p assms have "p_output pedantic tokens = Inl e"
        by (simp add: MIParser_parse_def split: sum.splits prod.splits)
      then obtain m where "e = SyntaxError m" using p_output_Inl by blast
      then show ?thesis by simp
    qed
  qed
qed

section \<open>The two modes\<close>

text \<open>
  The flag \<^verbatim>\<open>pedantic\<close> is read in two places: \<^verbatim>\<open>_stream_output\<close> accepts a newline
  after the C string only when it is off, and \<^verbatim>\<open>_output\<close> runs its second loop only when
  it is off. So a pedantic parse that succeeds is also a lenient one, with the same
  document, and a lenient parse is a pedantic one unless it used one of the two licences.
\<close>

lemma has_stream_nl_skip:
  "\<forall>t \<in> set pre. \<not> stream_sigil (fst t) \<Longrightarrow> has_stream_nl (pre @ rest) = has_stream_nl rest"
proof (induction pre)
  case Nil
  show ?case by simp
next
  case (Cons a pre)
  then have "has_stream_nl (a # pre @ rest) = has_stream_nl (pre @ rest)"
    by (cases "pre @ rest" rule: has_stream_nl.cases) auto
  with Cons show ?case by simp
qed

lemma has_stream_nl_Cons: "has_stream_nl ts \<Longrightarrow> has_stream_nl (a # ts)"
  by (cases ts rule: has_stream_nl.cases) auto

lemma has_stream_nl_suffix: "has_stream_nl ys \<Longrightarrow> has_stream_nl (xs @ ys)"
  by (induction xs) (auto intro: has_stream_nl_Cons)

lemma has_stream_nl_prefix: "has_stream_nl xs \<Longrightarrow> has_stream_nl (xs @ ys)"
  by (induction xs rule: has_stream_nl.induct) auto

lemma async_output_no_stream_sigil:
  assumes "async_output k ts = Inr (r, ts')" and "\<not> stream_sigil k"
  shows "\<exists>pre. ts = pre @ ts' \<and> (\<forall>t \<in> set pre. \<not> stream_sigil (fst t))"
proof -
  from sound_Inr_D [OF sound_async_output assms(1)] obtain pre where
    pre: "ts = pre @ ts'" "fst ` set pre \<subseteq> insert TOKEN (insert k (insert NL value_kinds))"
    by blast
  have "\<not> stream_sigil x" if "x \<in> insert TOKEN (insert k (insert NL value_kinds))" for x
    using that assms(2) by (auto simp: value_kinds_def)
  with pre show ?thesis by blast
qed

lemma stream_output_pedantic_D:
  assumes "stream_output True k ts = Inr (r, ts')"
  shows "\<exists>s c. ts = s # c # ts' \<and> fst s = k \<and> fst c = CSTRING \<and> r = StreamRecord (snd s) (snd c)"
  using assms
  by (auto simp: stream_output_def split: sum.splits)

lemma stream_output_lenient:
  "stream_output False k ts =
     (case stream_output True k ts of
        Inl e \<Rightarrow> Inl e
      | Inr (r, ts') \<Rightarrow> Inr (r, snd (accept NL ts')))"
  by (auto simp: stream_output_def split: sum.splits)

lemma accept_NL_cases:
  "(\<not> check NL ts \<and> snd (accept NL ts) = ts) \<or> (\<exists>n. fst n = NL \<and> ts = n # snd (accept NL ts))"
  by (cases ts) (auto simp: accept_def)

lemma out_of_band_record_cases:
  "out_of_band_record pedantic ts =
     (if lookahead ts \<in> Some ` {ASTERISK, PLUS, EQUALS} then async_output (the (lookahead ts)) ts
      else if lookahead ts \<in> Some ` {TILDE, AT, AMPERSAND}
        then stream_output pedantic (the (lookahead ts)) ts
      else Inl (SyntaxError (''expected out-of-band record marker, got '' @ [CHR 0x27]
                    @ str_kind (lookahead ts) @ [CHR 0x27])))"
  by (auto simp: out_of_band_record_def Let_def)

lemma oob_lenient_to_pedantic:
  assumes "out_of_band_record False ts = Inr (r, ts')"
  shows "out_of_band_record True ts = Inr (r, ts') \<or>
     (\<exists>s c n. ts = s # c # n # ts' \<and> stream_sigil (fst s) \<and> fst c = CSTRING \<and> fst n = NL)"
proof (cases "lookahead ts \<in> Some ` {TILDE, AT, AMPERSAND}")
  case False
  with assms show ?thesis
    by (auto simp: out_of_band_record_cases split: if_splits)
next
  case True
  let ?k = "the (lookahead ts)"
  from True have k: "stream_sigil ?k" by auto
  from True assms have l: "stream_output False ?k ts = Inr (r, ts')"
    by (auto simp: out_of_band_record_cases)
  then obtain ts'' where p: "stream_output True ?k ts = Inr (r, ts'')"
    and a: "ts' = snd (accept NL ts'')"
    by (auto simp: stream_output_lenient split: sum.splits)
  from stream_output_pedantic_D [OF p] obtain s c where
    sc: "ts = s # c # ts''" "fst s = ?k" "fst c = CSTRING" by blast
  from accept_NL_cases [of ts''] show ?thesis
  proof
    assume "\<not> check NL ts'' \<and> snd (accept NL ts'') = ts''"
    with a p True have "out_of_band_record True ts = Inr (r, ts')"
      by (auto simp: out_of_band_record_cases)
    then show ?thesis ..
  next
    assume "\<exists>n. fst n = NL \<and> ts'' = n # snd (accept NL ts'')"
    with a sc k show ?thesis by auto
  qed
qed

lemma oob_pedantic_to_lenient:
  assumes "out_of_band_record True ts = Inr (r, ts')" and "\<not> check NL ts'"
  shows "out_of_band_record False ts = Inr (r, ts')"
proof (cases "lookahead ts \<in> Some ` {TILDE, AT, AMPERSAND}")
  case False
  with assms show ?thesis
    by (auto simp: out_of_band_record_cases split: if_splits)
next
  case True
  with assms(1) have "stream_output True (the (lookahead ts)) ts = Inr (r, ts')"
    by (auto simp: out_of_band_record_cases)
  with assms(2) True show ?thesis
    by (auto simp: out_of_band_record_cases stream_output_lenient accept_def)
qed

lemma oob_pedantic_pattern:
  assumes "out_of_band_record True ts = Inr (r, ts')"
  shows "\<exists>pre. ts = pre @ ts' \<and> pre \<noteq> []
     \<and> (\<forall>X. \<not> check NL X \<longrightarrow> has_stream_nl (pre @ X) = has_stream_nl X)"
proof (cases "lookahead ts \<in> Some ` {TILDE, AT, AMPERSAND}")
  case True
  with assms have "stream_output True (the (lookahead ts)) ts = Inr (r, ts')"
    by (auto simp: out_of_band_record_cases)
  from stream_output_pedantic_D [OF this] obtain s c where
    sc: "ts = s # c # ts'" "fst c = CSTRING" by blast
  have "has_stream_nl ([s, c] @ X) = has_stream_nl X" if "\<not> check NL X" for X
  proof -
    have "has_stream_nl ([c] @ X) = has_stream_nl X"
      by (rule has_stream_nl_skip) (simp add: sc)
    with that show ?thesis by (cases X) auto
  qed
  with sc show ?thesis
    by (intro exI [of _ "[s, c]"]) simp
next
  case False
  with assms obtain k where k: "async_output k ts = Inr (r, ts')" "\<not> stream_sigil k"
    by (auto simp: out_of_band_record_cases split: if_splits)
  from async_output_no_stream_sigil [OF k] obtain pre where
    pre: "ts = pre @ ts'" "\<forall>t \<in> set pre. \<not> stream_sigil (fst t)" by blast
  from out_of_band_record_shorter [OF assms] pre have "pre \<noteq> []" by auto
  with pre has_stream_nl_skip [OF pre(2)] show ?thesis by blast
qed

lemma marker_not_NL: "out_of_band_record pedantic ts = Inr x \<Longrightarrow> \<not> check NL ts"
  by (cases ts) (auto simp: out_of_band_record_def Let_def split: if_splits)

lemma output_loop1_next_not_NL:
  assumes "output_loop1 pedantic acc ts = Inr (oob, ts1)"
  shows "\<not> check NL ts"
proof (cases "check CARET ts \<or> check PROMPT ts")
  case True
  then show ?thesis by (cases ts) auto
next
  case False
  with assms obtain x where "out_of_band_record pedantic ts = Inr x"
    by (cases "out_of_band_record pedantic ts") (auto simp: output_loop1.simps [of _ _ ts])
  then show ?thesis by (rule marker_not_NL)
qed

lemma output_loop1_step:
  "\<not> (check CARET ts \<or> check PROMPT ts) \<Longrightarrow> out_of_band_record pedantic ts = Inr (r, ts') \<Longrightarrow>
     output_loop1 pedantic acc ts = output_loop1 pedantic (acc @ [r]) ts'"
  by (simp add: output_loop1.simps [of _ acc ts])

lemma output_loop1_stop:
  "check CARET ts \<or> check PROMPT ts \<Longrightarrow> output_loop1 pedantic acc ts = Inr (acc, ts)"
  by (simp add: output_loop1.simps [of _ acc ts])

lemma output_loop1_InrE:
  assumes "output_loop1 pedantic acc ts = Inr (oob, ts1)"
  obtains "check CARET ts \<or> check PROMPT ts" "oob = acc" "ts1 = ts"
  | r ts' where "\<not> (check CARET ts \<or> check PROMPT ts)"
      "out_of_band_record pedantic ts = Inr (r, ts')"
      "output_loop1 pedantic (acc @ [r]) ts' = Inr (oob, ts1)"
proof (cases "check CARET ts \<or> check PROMPT ts")
  case True
  from assms output_loop1_stop [OF True, of pedantic acc] have "oob = acc" "ts1 = ts"
    by simp_all
  with True show ?thesis by (rule that(1))
next
  case False
  with assms obtain x where x: "out_of_band_record pedantic ts = Inr x"
    by (cases "out_of_band_record pedantic ts") (auto simp: output_loop1.simps [of _ _ ts])
  obtain r ts' where r: "x = (r, ts')" by (cases x)
  from x r have o: "out_of_band_record pedantic ts = Inr (r, ts')" by simp
  from assms output_loop1_step [OF False o, of acc]
  have "output_loop1 pedantic (acc @ [r]) ts' = Inr (oob, ts1)" by simp
  with False o show ?thesis by (rule that(2))
qed

lemma loop1_pedantic_to_lenient:
  "output_loop1 True acc ts = Inr (oob, ts1) \<Longrightarrow> output_loop1 False acc ts = Inr (oob, ts1)"
proof (induction "length ts" arbitrary: acc ts rule: less_induct)
  case less
  from less.prems show ?case
  proof (cases rule: output_loop1_InrE)
    case 1
    then show ?thesis by (simp add: output_loop1_stop)
  next
    case (2 r ts')
    from output_loop1_next_not_NL [OF 2(3)] have "\<not> check NL ts'" .
    from oob_pedantic_to_lenient [OF 2(2) this]
    have l: "out_of_band_record False ts = Inr (r, ts')" .
    from out_of_band_record_shorter [OF 2(2)] less.hyps [OF _ 2(3)]
    have "output_loop1 False (acc @ [r]) ts' = Inr (oob, ts1)" by simp
    with output_loop1_step [OF 2(1) l, of acc] show ?thesis by simp
  qed
qed

lemma loop1_pedantic_pattern:
  "output_loop1 True acc ts = Inr (oob, ts1) \<Longrightarrow>
     \<exists>pre. ts = pre @ ts1 \<and> (\<forall>X. \<not> check NL X \<longrightarrow> has_stream_nl (pre @ X) = has_stream_nl X)"
proof (induction "length ts" arbitrary: acc ts rule: less_induct)
  case less
  from less.prems show ?case
  proof (cases rule: output_loop1_InrE)
    case 1
    then show ?thesis by simp
  next
    case (2 r ts')
    from oob_pedantic_pattern [OF 2(2)] obtain pre where
      pre: "ts = pre @ ts'" "\<forall>X. \<not> check NL X \<longrightarrow> has_stream_nl (pre @ X) = has_stream_nl X"
      by blast
    from out_of_band_record_shorter [OF 2(2)] less.hyps [OF _ 2(3)] obtain pre' where
      pre': "ts' = pre' @ ts1"
        "\<forall>X. \<not> check NL X \<longrightarrow> has_stream_nl (pre' @ X) = has_stream_nl X"
      by blast
    have "has_stream_nl ((pre @ pre') @ X) = has_stream_nl X" if "\<not> check NL X" for X
    proof -
      have "\<not> check NL (pre' @ X)"
      proof (cases pre')
        case Nil
        with that show ?thesis by simp
      next
        case (Cons a list)
        with output_loop1_next_not_NL [OF 2(3)] pre'(1) show ?thesis by simp
      qed
      with pre(2) have "has_stream_nl (pre @ pre' @ X) = has_stream_nl (pre' @ X)" by blast
      with pre'(2) that show ?thesis by simp
    qed
    with pre(1) pre'(1) show ?thesis
      by (intro exI [of _ "pre @ pre'"]) simp
  qed
qed

lemma loop1_lenient_to_pedantic:
  "output_loop1 False acc ts = Inr (oob, ts1) \<Longrightarrow>
     \<exists>pre. ts = pre @ ts1 \<and> (output_loop1 True acc ts = Inr (oob, ts1) \<or> has_stream_nl pre)"
proof (induction "length ts" arbitrary: acc ts rule: less_induct)
  case less
  from less.prems show ?case
  proof (cases rule: output_loop1_InrE)
    case 1
    then show ?thesis by (simp add: output_loop1_stop)
  next
    case (2 r ts')
    from sound_Inr_D [OF sound_out_of_band_record 2(2)] obtain p where p: "ts = p @ ts'"
      by blast
    from out_of_band_record_shorter [OF 2(2)] less.hyps [OF _ 2(3)] obtain pre' where
      pre': "ts' = pre' @ ts1"
        "output_loop1 True (acc @ [r]) ts' = Inr (oob, ts1) \<or> has_stream_nl pre'"
      by blast
    from oob_lenient_to_pedantic [OF 2(2)]
    have "output_loop1 True acc ts = Inr (oob, ts1) \<or> has_stream_nl (p @ pre')"
    proof
      assume t: "out_of_band_record True ts = Inr (r, ts')"
      from pre'(2) show ?thesis
      proof
        assume "output_loop1 True (acc @ [r]) ts' = Inr (oob, ts1)"
        with output_loop1_step [OF 2(1) t, of acc] show ?thesis by simp
      next
        assume "has_stream_nl pre'"
        then show ?thesis by (simp add: has_stream_nl_suffix)
      qed
    next
      assume "\<exists>s c n. ts = s # c # n # ts' \<and> stream_sigil (fst s) \<and> fst c = CSTRING \<and> fst n = NL"
      then obtain s c n where
        "ts = s # c # n # ts'" "stream_sigil (fst s)" "fst c = CSTRING" "fst n = NL" by blast
      with p have "p = [s, c, n]" by simp
      moreover have "has_stream_nl [s, c, n]"
        using \<open>stream_sigil (fst s)\<close> \<open>fst c = CSTRING\<close> \<open>fst n = NL\<close> by simp
      ultimately show ?thesis by (simp add: has_stream_nl_prefix)
    qed
    with p pre'(1) show ?thesis
      by (intro exI [of _ "p @ pre'"]) simp
  qed
qed

lemma output_loop2_cases:
  assumes "output_loop2 pedantic acc ts = Inr (oob, ts3)"
  shows "(check PROMPT ts \<and> oob = acc \<and> ts3 = ts)
    \<or> (\<not> check PROMPT ts \<and> (\<exists>x. out_of_band_record pedantic ts = Inr x))"
proof (cases "check PROMPT ts")
  case True
  with assms show ?thesis by (simp add: output_loop2.simps [of _ acc ts])
next
  case False
  with assms show ?thesis
    by (cases "out_of_band_record pedantic ts") (auto simp: output_loop2.simps [of _ _ ts])
qed

lemma takeWhile_prompt:
  "fst pt = PROMPT \<Longrightarrow> PROMPT \<notin> fst ` set pre \<Longrightarrow>
     takeWhile (\<lambda>t. fst t \<noteq> PROMPT) (pre @ pt # rest) = pre"
  by (induction pre) auto

lemma takeWhile_prompt_append:
  "PROMPT \<notin> fst ` set pre \<Longrightarrow>
     takeWhile (\<lambda>t. fst t \<noteq> PROMPT) (pre @ rest) = pre @ takeWhile (\<lambda>t. fst t \<noteq> PROMPT) rest"
  by (induction pre) auto

lemma p_output_modes:
  "(p_output True ts = Inr ((oob, res), r)) =
     (p_output False ts = Inr ((oob, res), r) \<and> \<not> oob_after_result ts \<and> \<not> stream_with_newline ts)"
proof
  assume ped: "p_output True ts = Inr ((oob, res), r)"
  from p_output_InrD [OF ped] obtain oob1 ts1 ts2 ts3 pt nl where
    l1: "output_loop1 True [] ts = Inr (oob1, ts1)"
    and 2: "if check CARET ts1 then \<exists>rr. result_record ts1 = Inr (rr, ts2) \<and> res = Some rr
        else res = None \<and> ts2 = ts1"
    and 3: "oob = oob1" "ts3 = ts2"
    and 4: "ts3 = pt # nl # r" "fst pt = PROMPT" "fst nl = NL"
    by auto
  note l1' = loop1_pedantic_to_lenient [OF l1]
  from 3 4 have "check PROMPT ts2" by auto
  then have l2: "output_loop2 False oob1 ts2 = Inr (oob1, ts2)"
    by (simp add: output_loop2.simps [of False oob1 ts2])
  from 3 4 have e: "ts2 = pt # nl # r" by simp
  note fin = prompt_line_I [OF e 4(2,3)]
  have len: "p_output False ts = Inr ((oob, res), r)"
  proof (cases "check CARET ts1")
    case True
    with 2 obtain rr where "result_record ts1 = Inr (rr, ts2)" "res = Some rr" by auto
    with True l1' l2 3(1) show ?thesis
      by (simp add: p_output_def fin)
  next
    case False
    with 2 have "res = None" "ts1 = ts2" by simp_all
    with False l1' l2 3(1) show ?thesis
      by (simp add: p_output_def fin)
  qed
  have a: "\<not> oob_after_result ts"
  proof (cases "check CARET ts1")
    case True
    with 2 obtain rr where rr: "result_record ts1 = Inr (rr, ts2)" by auto
    have "\<not> (\<exists>x. out_of_band_record False ts2 = Inr x)"
      using out_of_band_record_marker [of False ts2] 3 4 by auto
    with l1' rr show ?thesis
      by (cases "out_of_band_record False ts2") (auto simp: oob_after_result_def)
  next
    case False
    with l1' show ?thesis by (simp add: oob_after_result_def)
  qed
  have b: "\<not> stream_with_newline ts"
  proof -
    from loop1_pedantic_pattern [OF l1] obtain pre1 where
      p1: "ts = pre1 @ ts1"
        "\<forall>X. \<not> check NL X \<longrightarrow> has_stream_nl (pre1 @ X) = has_stream_nl X" by blast
    from sound0_Inr_D [OF sound0_output_loop1 l1] p1(1) have np1: "PROMPT \<notin> fst ` set pre1"
      by auto
    have "\<exists>pre2. ts1 = pre2 @ ts2 \<and> PROMPT \<notin> fst ` set pre2
        \<and> (\<forall>t \<in> set pre2. \<not> stream_sigil (fst t)) \<and> \<not> check NL pre2"
    proof (cases "check CARET ts1")
      case True
      with 2 obtain rr where "result_record ts1 = Inr (rr, ts2)" by auto
      from result_record_no_stream_sigil [OF this] obtain pre2 where
        "ts1 = pre2 @ ts2" "PROMPT \<notin> fst ` set pre2" "\<forall>t \<in> set pre2. \<not> stream_sigil (fst t)"
        by blast
      moreover from this(1) True 3 4 have "\<not> check NL pre2" by (cases pre2) auto
      ultimately show ?thesis by blast
    next
      case False
      with 2 show ?thesis by simp
    qed
    then obtain pre2 where p2: "ts1 = pre2 @ ts2" "PROMPT \<notin> fst ` set pre2"
      "\<forall>t \<in> set pre2. \<not> stream_sigil (fst t)" "\<not> check NL pre2" by blast
    have "ts = (pre1 @ pre2) @ pt # nl # r"
      using p1(1) p2(1) e by simp
    moreover have "PROMPT \<notin> fst ` set (pre1 @ pre2)"
      using np1 p2(2) by auto
    ultimately have "takeWhile (\<lambda>t. fst t \<noteq> PROMPT) ts = pre1 @ pre2"
      using takeWhile_prompt [OF 4(2), of "pre1 @ pre2" "nl # r"] by simp
    moreover from p1(2) p2(4) have "has_stream_nl (pre1 @ pre2) = has_stream_nl pre2" by blast
    moreover from has_stream_nl_skip [OF p2(3), of "[]"] have "\<not> has_stream_nl pre2" by simp
    ultimately show ?thesis by (simp add: stream_with_newline_def)
  qed
  from len a b
  show "p_output False ts = Inr ((oob, res), r) \<and> \<not> oob_after_result ts \<and> \<not> stream_with_newline ts"
    by blast
next
  assume "p_output False ts = Inr ((oob, res), r) \<and> \<not> oob_after_result ts \<and> \<not> stream_with_newline ts"
  then have len: "p_output False ts = Inr ((oob, res), r)"
    and a: "\<not> oob_after_result ts" and b: "\<not> stream_with_newline ts" by blast+
  from p_output_InrD [OF len] obtain oob1 ts1 ts2 ts3 pt nl where
    l1: "output_loop1 False [] ts = Inr (oob1, ts1)"
    and 2: "if check CARET ts1 then \<exists>rr. result_record ts1 = Inr (rr, ts2) \<and> res = Some rr
        else res = None \<and> ts2 = ts1"
    and 3: "output_loop2 False oob1 ts2 = Inr (oob, ts3)"
    and 4: "ts3 = pt # nl # r" "fst pt = PROMPT" "fst nl = NL"
    by auto
  from loop1_lenient_to_pedantic [OF l1] obtain pre1 where
    p1: "ts = pre1 @ ts1" "output_loop1 True [] ts = Inr (oob1, ts1) \<or> has_stream_nl pre1"
    by blast
  from sound0_Inr_D [OF sound0_output_loop1 l1] p1(1) have np1: "PROMPT \<notin> fst ` set pre1"
    by auto
  have "\<not> has_stream_nl pre1"
  proof
    assume "has_stream_nl pre1"
    then have "has_stream_nl (pre1 @ takeWhile (\<lambda>t. fst t \<noteq> PROMPT) ts1)"
      by (rule has_stream_nl_prefix)
    with b p1(1) takeWhile_prompt_append [OF np1, of ts1] show False
      by (simp add: stream_with_newline_def)
  qed
  with p1(2) have l1': "output_loop1 True [] ts = Inr (oob1, ts1)" by simp
  have c: "check PROMPT ts2"
  proof (rule ccontr)
    assume n: "\<not> check PROMPT ts2"
    with output_loop2_cases [OF 3] obtain x where x: "out_of_band_record False ts2 = Inr x"
      by blast
    show False
    proof (cases "check CARET ts1")
      case True
      with 2 obtain rr where "result_record ts1 = Inr (rr, ts2)" by auto
      with l1 True x have "oob_after_result ts" by (simp add: oob_after_result_def)
      with a show False ..
    next
      case False
      with 2 have "ts2 = ts1" by simp
      with output_loop1_ends [OF l1] False n show False by simp
    qed
  qed
  with output_loop2_cases [OF 3] have 5: "oob = oob1" "ts3 = ts2" by simp_all
  from 4 5 have e: "ts2 = pt # nl # r" by simp
  note fin = prompt_line_I [OF e 4(2,3)]
  show "p_output True ts = Inr ((oob, res), r)"
  proof (cases "check CARET ts1")
    case True
    with 2 obtain rr where "result_record ts1 = Inr (rr, ts2)" "res = Some rr" by auto
    with True l1' 5(1) show ?thesis
      by (simp add: p_output_def fin)
  next
    case False
    with 2 have "res = None" "ts1 = ts2" by simp_all
    with False l1' 5(1) show ?thesis
      by (simp add: p_output_def fin)
  qed
qed

section \<open>Inputs built from named results and from records\<close>



lemma oob_block_marker:
  assumes "oob_block b"
  shows "\<not> check CARET (fst b @ rest) \<and> \<not> check PROMPT (fst b @ rest)"
proof -
  obtain toks rcd where b: "b = (toks, rcd)" by (cases b)
  with assms have "out_of_band_record False (toks @ rest) = Inr (rcd, rest)"
    by (simp add: oob_block_def)
  from out_of_band_record_marker [OF this] b show ?thesis by simp
qed

lemma output_loop1_blocks:
  assumes "\<forall>b \<in> set blocks. oob_block b"
  shows "output_loop1 False acc (concat (map fst blocks) @ rest)
      = output_loop1 False (acc @ map snd blocks) rest"
  using assms
proof (induction blocks arbitrary: acc)
  case Nil
  show ?case by simp
next
  case (Cons b blocks)
  obtain toks rcd where b: "b = (toks, rcd)" by (cases b)
  from Cons.prems b have o: "out_of_band_record False (toks @ r) = Inr (rcd, r)" for r
    by (simp add: oob_block_def)
  from Cons.prems oob_block_marker [of b] b
  have m: "\<not> check CARET (toks @ r) \<and> \<not> check PROMPT (toks @ r)" for r
    by simp
  have "output_loop1 False acc (concat (map fst (b # blocks)) @ rest)
      = output_loop1 False (acc @ [rcd]) (concat (map fst blocks) @ rest)"
    using o m b
    by (simp add: output_loop1.simps [of False acc])
  with Cons show ?case using b by simp
qed

lemma output_loop2_blocks:
  assumes "\<forall>b \<in> set blocks. oob_block b"
  shows "output_loop2 False acc (concat (map fst blocks) @ rest)
      = output_loop2 False (acc @ map snd blocks) rest"
  using assms
proof (induction blocks arbitrary: acc)
  case Nil
  show ?case by simp
next
  case (Cons b blocks)
  obtain toks rcd where b: "b = (toks, rcd)" by (cases b)
  from Cons.prems b have o: "out_of_band_record False (toks @ r) = Inr (rcd, r)" for r
    by (simp add: oob_block_def)
  from Cons.prems oob_block_marker [of b] b
  have m: "\<not> check CARET (toks @ r) \<and> \<not> check PROMPT (toks @ r)" for r
    by simp
  have "output_loop2 False acc (concat (map fst (b # blocks)) @ rest)
      = output_loop2 False (acc @ [rcd]) (concat (map fst blocks) @ rest)"
    using o m b
    by (simp add: output_loop2.simps [of False acc])
  with Cons show ?case using b by simp
qed

lemma lenient_parse_blocks:
  assumes "\<forall>b \<in> set (before @ after). oob_block b"
    and "\<forall>rest. result_record ((CARET, c) # rtoks @ rest) = Inr (rr, rest)"
    and "scan ucd text = Inr (concat (map fst before) @ (CARET, c) # rtoks
            @ concat (map fst after) @ [(PROMPT, p), (NL, n)], [])"
  shows "parse ucd text False = Inr (map snd (before @ after), Some rr)"
proof -
  let ?tail = "concat (map fst after) @ [(PROMPT, p), (NL, n)]"
  let ?tokens = "concat (map fst before) @ (CARET, c) # rtoks @ ?tail"
  from assms(1) have b: "\<forall>b \<in> set before. oob_block b" and a: "\<forall>b \<in> set after. oob_block b"
    by simp_all
  have 1: "output_loop1 False [] ?tokens = Inr (map snd before, (CARET, c) # rtoks @ ?tail)"
    using output_loop1_blocks [OF b, of "[]" "(CARET, c) # rtoks @ ?tail"]
    by (simp add: output_loop1.simps [of False _ "_ # _"])
  have 2: "result_record ((CARET, c) # rtoks @ ?tail) = Inr (rr, ?tail)"
    using assms(2) by blast
  have 3: "output_loop2 False (map snd before) ?tail
      = Inr (map snd before @ map snd after, [(PROMPT, p), (NL, n)])"
    using output_loop2_blocks [OF a, of "map snd before" "[(PROMPT, p), (NL, n)]"]
    by (simp add: output_loop2.simps [of False _ "_ # _"])
  have "p_output False ?tokens = Inr ((map snd before @ map snd after, Some rr), [])"
    unfolding p_output_def 1
    by (simp add: 2 3 expect_Cons del: append_Cons append_assoc)
  with assms(3) show ?thesis
    by (simp add: parse_def MIParser_parse_def)
qed

section \<open>The claims\<close>

text \<open>
  C1 (the code departs from the claim). The claim expects
  \<^verbatim>\<open>1^done,bkpt={number="1"}\<close>, newline, prompt line to parse to the result record
  \<^verbatim>\<open>(1, "done", [...])\<close>, the numeric id being taken by the result-record rule. In the
  code \<^verbatim>\<open>_output\<close> enters \<^verbatim>\<open>_result_record\<close> only when the current token is the
  caret, so the numeric token that comes first is handed to \<^verbatim>\<open>_out_of_band_record\<close>,
  which has no handler for it: the call fails, in both modes, and \<^verbatim>\<open>_token_maybe\<close> in
  \<^verbatim>\<open>_result_record\<close> never sees a numeric token.
\<close>

theorem parse_numbered_result_fails:
  "parse ucd ''1^done,bkpt={number=\"1\"}\<newline>(gdb)\<newline>'' pedantic =
     Inl (SyntaxError (''expected out-of-band record marker, got '' @ [CHR 0x27] @ ''TOKEN''
            @ [CHR 0x27]))"
  by (cases pedantic; code_simp)

text \<open>
  The same input without the numeric id fails as well, for another reason:
  \<^verbatim>\<open>_comma_prefixed_results\<close> ends by consuming the newline, and \<^verbatim>\<open>_result_record\<close>
  then expects one more. A result record with results parses only when two newlines follow.
\<close>

lemma result_list_second_newline:
  "parse ucd ''^done,bkpt={number=\"1\"}\<newline>(gdb)\<newline>'' False =
     Inl (SyntaxError ''expected NL, got PROMPT'')
   \<and> parse ucd ''^done,bkpt={number=\"1\"}\<newline>(gdb)\<newline>'' True =
     Inl (SyntaxError ''expected NL, got PROMPT'')
   \<and> parse ucd ''^done,bkpt={number=\"1\"}\<newline>\<newline>(gdb)\<newline>'' False =
     Inr ([], Some (None, Txt ''done'',
       Some [PDict (Txt ''bkpt'') (PList [PDict (Txt ''number'') (Atom (Txt ''1''))])]))"
  by code_simp

text \<open>
  C2 (as stated, refuted). The claim has pedantic mode reject a stream record that lacks
  its newline, and the two modes agree on a stream record that has it. The pedantic branch
  of \<^verbatim>\<open>_stream_output\<close> consumes no newline at all, so \<^verbatim>\<open>~"Hello"\<close>, newline, prompt
  line is accepted in lenient mode and rejected in pedantic mode, and
  \<^verbatim>\<open>~"Hello"(gdb)\<close>, newline, where the record's newline is missing, is accepted in
  pedantic mode.
\<close>

theorem pedantic_stream_newline_counterexample:
  "parse Map.empty ''~\"Hello\"\<newline>(gdb)\<newline>'' False =
     Inr ([StreamRecord (Txt ''~'') (Txt ''Hello'')], None)
   \<and> parse Map.empty ''~\"Hello\"\<newline>(gdb)\<newline>'' True =
     Inl (SyntaxError (''expected out-of-band record marker, got '' @ [CHR 0x27] @ ''NL''
            @ [CHR 0x27]))
   \<and> parse Map.empty ''~\"Hello\"(gdb)\<newline>'' True =
     Inr ([StreamRecord (Txt ''~'') (Txt ''Hello'')], None)"
  by code_simp

text \<open>
  C2 (amended). For every input text, pedantic mode returns a document exactly when lenient
  mode returns that document and the tokens of the input show, before the first prompt
  token, neither an out-of-band record after the result record nor a stream record
  followed by a newline. So the modes differ exactly on the inputs that lenient mode
  accepts and that show one of the two: lenient mode accepts them, pedantic mode rejects
  them; on every other input both return the same document or both fail. A stream record
  with no newline after it is accepted in both modes. When the scanner itself fails, on a
  string escape that cannot be decoded, both modes fail with that error.
\<close>

theorem pedantic_iff_lenient_strict:
  "(scan ucd text = Inl e \<longrightarrow> parse ucd text True = Inl e \<and> parse ucd text False = Inl e)
   \<and> (scan ucd text = Inr (tokens, remainder) \<longrightarrow>
        (parse ucd text True = Inr d) =
        (parse ucd text False = Inr d \<and> \<not> oob_after_result tokens
           \<and> \<not> stream_with_newline tokens))"
proof (intro conjI impI)
  assume "scan ucd text = Inl e"
  then show "parse ucd text True = Inl e" and "parse ucd text False = Inl e"
    by (simp_all add: parse_def)
next
  assume s: "scan ucd text = Inr (tokens, remainder)"
  show "(parse ucd text True = Inr d) =
        (parse ucd text False = Inr d \<and> \<not> oob_after_result tokens
           \<and> \<not> stream_with_newline tokens)"
  proof (cases "remainder = [] \<and> tokens \<noteq> []")
    case False
    with s show ?thesis
      by (auto simp: parse_def MIParser_parse_def)
  next
    case True
    obtain oob res where d: "d = (oob, res)" by (cases d)
    from True s have p: "(parse ucd text b = Inr d) = (\<exists>r. p_output b tokens = Inr (d, r))"
      for b
      by (auto simp: parse_def MIParser_parse_def split: sum.splits)
    have "(\<exists>r. p_output True tokens = Inr (d, r)) =
        (\<exists>r. p_output False tokens = Inr (d, r) \<and> \<not> oob_after_result tokens
           \<and> \<not> stream_with_newline tokens)"
      by (simp add: d p_output_modes)
    with p show ?thesis by auto
  qed
qed

theorem pedantic_iff_lenient_strict_witness:
  "scan Map.empty ''~\"Hello\"\<newline>(gdb)\<newline>'' =
     Inr ([(TILDE, Txt ''~''), (CSTRING, Txt ''Hello''), (NL, Txt ''\<newline>''),
           (PROMPT, Txt ''(gdb)''), (NL, Txt ''\<newline>'')], [])
   \<and> stream_with_newline [(TILDE, Txt ''~''), (CSTRING, Txt ''Hello''), (NL, Txt ''\<newline>''),
           (PROMPT, Txt ''(gdb)''), (NL, Txt ''\<newline>'')]
   \<and> parse Map.empty ''~\"Hello\"\<newline>(gdb)\<newline>'' False =
       Inr ([StreamRecord (Txt ''~'') (Txt ''Hello'')], None)
   \<and> parse Map.empty ''~\"Hello\"\<newline>(gdb)\<newline>'' True \<noteq>
       Inr ([StreamRecord (Txt ''~'') (Txt ''Hello'')], None)
   \<and> scan Map.empty (''~\"'' @ [CHR 0x5C] @ ''x\"\<newline>(gdb)\<newline>'') = Inl UnicodeDecodeError
   \<and> parse Map.empty (''~\"'' @ [CHR 0x5C] @ ''x\"\<newline>(gdb)\<newline>'') True
       = Inl UnicodeDecodeError
   \<and> parse Map.empty (''~\"'' @ [CHR 0x5C] @ ''x\"\<newline>(gdb)\<newline>'') False
       = Inl UnicodeDecodeError"
proof -
  let ?toks = "[(TILDE, Txt ''~''), (CSTRING, Txt ''Hello''), (NL, Txt ''\<newline>''),
           (PROMPT, Txt ''(gdb)''), (NL, Txt ''\<newline>'')]"
  let ?d = "([StreamRecord (Txt ''~'') (Txt ''Hello'')], None) :: document"
  let ?bad = "''~\"'' @ [CHR 0x5C] @ ''x\"\<newline>(gdb)\<newline>''"
  have 1: "scan Map.empty ''~\"Hello\"\<newline>(gdb)\<newline>'' = Inr (?toks, [])" by code_simp
  have 2: "stream_with_newline ?toks" by (simp add: stream_with_newline_def)
  have 3: "parse Map.empty ''~\"Hello\"\<newline>(gdb)\<newline>'' False = Inr ?d" by code_simp
  have 4: "scan Map.empty ?bad = Inl UnicodeDecodeError" by code_simp
  from pedantic_iff_lenient_strict
    [of Map.empty "''~\"Hello\"\<newline>(gdb)\<newline>''" UnicodeDecodeError ?toks "[]" ?d] 1 2
  have 5: "parse Map.empty ''~\"Hello\"\<newline>(gdb)\<newline>'' True \<noteq> Inr ?d" by simp
  from pedantic_iff_lenient_strict [of Map.empty ?bad UnicodeDecodeError "[]" "[]" ?d] 4
  have 6: "parse Map.empty ?bad True = Inl UnicodeDecodeError
    \<and> parse Map.empty ?bad False = Inl UnicodeDecodeError" by simp
  from 1 2 3 4 5 6 show ?thesis by simp
qed



text \<open>
  C4 (the code departs from the claim). The claim allows two kinds of failure, also for the
  empty input. On the empty text the scanner returns no token and no remainder, the
  assertion passes, and \<^verbatim>\<open>MIParser.parse\<close> calls \<^verbatim>\<open>next\<close> on the empty iterator
  without a default: the call fails with \<^verbatim>\<open>StopIteration\<close>, which is neither the
  lexical nor the grammar error. (\<open>parse_failure_kinds\<close> above lists every failure of
  \<^verbatim>\<open>parse\<close>; \<^verbatim>\<open>StopIteration\<close> occurs on the empty text only.)
\<close>

theorem parse_empty_text:
  "parse ucd [] pedantic = Inl StopIteration"
  by (cases pedantic; code_simp)




text \<open>
  C6 (as stated, refuted). The claim has \<^verbatim>\<open>parse\<close> fail with the lexical error, the
  assertion on the scanner's remainder, for every input that holds a byte no rule
  matches. The action of the quoted-string rule runs \<^verbatim>\<open>decode_string\<close> during the scan and
  nothing catches what the codec raises: in \<^verbatim>\<open>~"\x"#\<close> no rule matches \<^verbatim>\<open>#\<close>, but the
  scan ends on the string before it with \<^verbatim>\<open>UnicodeDecodeError\<close>, and the assertion is
  never reached.
\<close>

theorem decode_error_before_stray_byte_counterexample:
  "first_match (mi_scanner Map.empty) ''#'' = None
   \<and> parse Map.empty (''~\"'' @ [CHR 0x5C] @ ''x\"#'') False = Inl UnicodeDecodeError
   \<and> parse Map.empty (''~\"'' @ [CHR 0x5C] @ ''x\"#'') True = Inl UnicodeDecodeError"
  by code_simp

text \<open>
  C6 (amended). Take an input with a byte that no rule of the lexicon can take outside a
  quoted string (such as \<^verbatim>\<open>#\<close>), and scan the text before that byte. If this scan
  raises a decode error, \<^verbatim>\<open>parse\<close> of the whole input raises the same error. If it
  returns tokens and stops at the end of that text, or earlier at a character other than a
  double quote, then the scan of the whole input returns the same tokens and leaves the
  rest with the byte in it, and \<^verbatim>\<open>parse\<close> fails with the assertion's error, in both
  modes. (What is left is the case of a quote still open before the byte: the quoted-string
  rule takes any byte.) The parser never raises the assertion's error, so this failure is
  none of a grammar rule: the parser is created only after the assertion has passed. In
  general \<^verbatim>\<open>parse\<close> fails with the assertion's error exactly when the scanner leaves a
  remainder, which is a text at whose start no rule matches.
\<close>

theorem unmatched_byte_lexical_error:
  assumes "\<not> lexical_char c"
  shows "(scan ucd pre = Inl e \<longrightarrow> parse ucd (pre @ c # post) pedantic = Inl e)
   \<and> (scan ucd pre = Inr (tokens, remainder) \<longrightarrow>
        (remainder = [] \<or> hd remainder \<noteq> CHR 0x22) \<longrightarrow>
          scan ucd (pre @ c # post) = Inr (tokens, remainder @ c # post)
          \<and> parse ucd (pre @ c # post) pedantic = Inl AssertionError)
   \<and> MIParser_parse toks pedantic \<noteq> Inl AssertionError
   \<and> ((parse ucd text pedantic = Inl AssertionError) =
        (\<exists>tokens remainder. scan ucd text = Inr (tokens, remainder) \<and> remainder \<noteq> []
           \<and> first_match (mi_scanner ucd) remainder = None))"
proof (intro conjI impI)
  assume "scan ucd pre = Inl e"
  with scan_ext [OF assms, of ucd pre e post] have "scan ucd (pre @ c # post) = Inl e" by blast
  then show "parse ucd (pre @ c # post) pedantic = Inl e" by (simp add: parse_def)
next
  assume "scan ucd pre = Inr (tokens, remainder)"
    and "remainder = [] \<or> hd remainder \<noteq> CHR 0x22"
  with scan_ext [OF assms, of ucd pre _ post tokens remainder]
  show s: "scan ucd (pre @ c # post) = Inr (tokens, remainder @ c # post)" by blast
  then show "parse ucd (pre @ c # post) pedantic = Inl AssertionError"
    by (simp add: parse_def)
next
  show "MIParser_parse toks pedantic \<noteq> Inl AssertionError"
    by (rule MIParser_parse_no_assertion)
next
  show "(parse ucd text pedantic = Inl AssertionError) =
      (\<exists>tokens remainder. scan ucd text = Inr (tokens, remainder) \<and> remainder \<noteq> []
         \<and> first_match (mi_scanner ucd) remainder = None)"
  proof
    assume p: "parse ucd text pedantic = Inl AssertionError"
    show "\<exists>tokens remainder. scan ucd text = Inr (tokens, remainder) \<and> remainder \<noteq> []
          \<and> first_match (mi_scanner ucd) remainder = None"
    proof (cases "scan ucd text")
      case (Inl e)
      with p scan_Inl [OF Inl] show ?thesis by (auto simp: parse_def)
    next
      case (Inr x)
      obtain tokens remainder where x: "x = (tokens, remainder)" by (cases x)
      have "remainder \<noteq> []"
      proof
        assume "remainder = []"
        with p Inr x have "MIParser_parse tokens pedantic = Inl AssertionError"
          by (simp add: parse_def)
        with MIParser_parse_no_assertion show False by blast
      qed
      with Inr x scan_remainder [of ucd "text" tokens remainder]
      show ?thesis by simp
    qed
  next
    assume "\<exists>tokens remainder. scan ucd text = Inr (tokens, remainder) \<and> remainder \<noteq> []
          \<and> first_match (mi_scanner ucd) remainder = None"
    then show "parse ucd text pedantic = Inl AssertionError"
      by (auto simp: parse_def)
  qed
qed

theorem unmatched_byte_lexical_error_witness:
  "\<not> lexical_char (CHR ''#'')
   \<and> scan Map.empty ''~\"a\"\<newline>'' =
       Inr ([(TILDE, Txt ''~''), (CSTRING, Txt ''a''), (NL, Txt ''\<newline>'')], [])
   \<and> scan Map.empty ''~\"a\"\<newline>#(gdb)\<newline>'' =
       Inr ([(TILDE, Txt ''~''), (CSTRING, Txt ''a''), (NL, Txt ''\<newline>'')], ''#(gdb)\<newline>'')
   \<and> parse Map.empty ''~\"a\"\<newline>#(gdb)\<newline>'' False = Inl AssertionError
   \<and> parse Map.empty ''~\"a\"\<newline>#(gdb)\<newline>'' True = Inl AssertionError
   \<and> parse Map.empty ''~\"a\"\<newline>(gdb)\<newline>'' False
       = Inr ([StreamRecord (Txt ''~'') (Txt ''a'')], None)
   \<and> scan Map.empty (''~\"'' @ [CHR 0x5C] @ ''x\"'') = Inl UnicodeDecodeError
   \<and> parse Map.empty (''~\"'' @ [CHR 0x5C] @ ''x\"'' @ ''#'') False = Inl UnicodeDecodeError"
proof -
  let ?toks = "[(TILDE, Txt ''~''), (CSTRING, Txt ''a''), (NL, Txt ''\<newline>'')]"
  let ?bad = "''~\"'' @ [CHR 0x5C] @ ''x\"''"
  have 1: "\<not> lexical_char (CHR ''#'')"
    by (simp add: lexical_char_def digit_def ident_char_def ident_start_def)
  have 2: "scan Map.empty ''~\"a\"\<newline>'' = Inr (?toks, [])" by code_simp
  have 3: "parse Map.empty ''~\"a\"\<newline>(gdb)\<newline>'' False
       = Inr ([StreamRecord (Txt ''~'') (Txt ''a'')], None)" by code_simp
  have 4: "scan Map.empty ?bad = Inl UnicodeDecodeError" by code_simp
  note a = unmatched_byte_lexical_error [OF 1, of Map.empty "''~\"a\"\<newline>''" UnicodeDecodeError
      "''(gdb)\<newline>''" _ ?toks "[]" "[]" "[]"]
  note b = unmatched_byte_lexical_error [OF 1, of Map.empty ?bad UnicodeDecodeError
      "[]" False "[]" "[]" "[]" "[]"]
  from a [of False] 2 have 5: "scan Map.empty ''~\"a\"\<newline>#(gdb)\<newline>'' =
       Inr (?toks, ''#(gdb)\<newline>'')"
    and 6: "parse Map.empty ''~\"a\"\<newline>#(gdb)\<newline>'' False = Inl AssertionError"
    by simp_all
  from a [of True] 2 have 7: "parse Map.empty ''~\"a\"\<newline>#(gdb)\<newline>'' True = Inl AssertionError"
    by simp
  from b 4 have 8: "parse Map.empty (?bad @ ''#'') False = Inl UnicodeDecodeError"
    by simp
  from 1 2 3 4 5 6 7 8 show ?thesis by simp
qed

text \<open>
  C7 (as stated, refuted). The claim has \<^verbatim>\<open>parse\<close> fail whenever a second
  caret-introduced record comes after the first result record. \<^verbatim>\<open>_output\<close> returns after
  the first prompt line without looking at the tokens that follow, so a second result
  record after that line is ignored, in both modes, and the call succeeds.
\<close>

theorem second_result_after_prompt_counterexample:
  "parse Map.empty ''^done\<newline>(gdb)\<newline>^done\<newline>(gdb)\<newline>'' False =
     Inr ([], Some (None, Txt ''done'', None))
   \<and> parse Map.empty ''^done\<newline>(gdb)\<newline>^done\<newline>(gdb)\<newline>'' True =
     Inr ([], Some (None, Txt ''done'', None))"
  by code_simp

text \<open>
  C7 (amended). A document has room for one result record only, and whenever \<^verbatim>\<open>parse\<close>
  returns one, in either mode, the tokens before the first prompt token hold exactly one
  caret if the document has a result record and none if it has not: a second
  caret-introduced record before the first prompt line makes \<^verbatim>\<open>parse\<close> fail. What
  follows the first prompt line is not read.
\<close>

theorem one_result_before_prompt:
  assumes "parse ucd text pedantic = Inr (oob, res)"
  shows "\<exists>body pt nl rest.
      scan ucd text = Inr (body @ pt # nl # rest, [])
    \<and> fst pt = PROMPT \<and> fst nl = NL \<and> PROMPT \<notin> fst ` set body
    \<and> length (filter (\<lambda>t. fst t = CARET) body) = (case res of None \<Rightarrow> 0 | Some rr \<Rightarrow> 1)"
proof -
  from assms obtain tokens where sc: "scan ucd text = Inr (tokens, [])"
    and mp: "MIParser_parse tokens pedantic = Inr (oob, res)"
    by (auto simp: parse_def split: sum.splits if_splits)
  from mp obtain r where "p_output pedantic tokens = Inr ((oob, res), r)"
    by (auto simp: MIParser_parse_def split: sum.splits if_splits)
  from p_output_Inr [OF this] sc show ?thesis
    unfolding carets_def by blast
qed

theorem one_result_before_prompt_witness:
  "parse Map.empty ''^done\<newline>(gdb)\<newline>'' True = Inr ([], Some (None, Txt ''done'', None))
   \<and> (\<exists>body pt nl rest.
      scan Map.empty ''^done\<newline>(gdb)\<newline>'' = Inr (body @ pt # nl # rest, [])
    \<and> fst pt = PROMPT \<and> fst nl = NL \<and> PROMPT \<notin> fst ` set body
    \<and> length (filter (\<lambda>t. fst t = CARET) body) = 1)"
proof -
  have h: "parse Map.empty ''^done\<newline>(gdb)\<newline>'' True =
      Inr ([], Some (None, Txt ''done'', None))"
    by code_simp
  from one_result_before_prompt [OF h] h show ?thesis by simp
qed

text \<open>
  C8. For the input \<^verbatim>\<open>^done\<close>, newline, prompt line, \<^verbatim>\<open>parse\<close> in its default,
  lenient mode returns a document with no out-of-band record and a result record with no
  numeric id, the class \<^verbatim>\<open>done\<close> and no result list.
\<close>

theorem parse_done:
  "parse ucd ''^done\<newline>(gdb)\<newline>'' False = Inr ([], Some (None, Txt ''done'', None))"
  by code_simp


text \<open>
  C10. In lenient mode the out-of-band records that follow the result record are appended
  to the list that already holds those before it, so the document has one list, in the
  order of the input, and shows nothing of where the result record stood. Stated on the
  tokens: let \<open>before\<close>, \<open>moved\<close> and \<open>after\<close> be out-of-band records, each given by its
  tokens and the record they parse to, and let the result record be given likewise; then
  the input with \<open>moved\<close> before the result record and the input with \<open>moved\<close> after it
  parse to the same document, whose list is the records of \<open>before\<close>, \<open>moved\<close>, \<open>after\<close>.
\<close>

theorem lenient_records_one_list:
  assumes "\<forall>b \<in> set (before @ moved @ after). oob_block b"
    and "\<forall>rest. result_record ((CARET, c) # rtoks @ rest) = Inr (rr, rest)"
    and "scan ucd text1 = Inr (concat (map fst (before @ moved)) @ (CARET, c) # rtoks
            @ concat (map fst after) @ [(PROMPT, p), (NL, n)], [])"
    and "scan ucd text2 = Inr (concat (map fst before) @ (CARET, c) # rtoks
            @ concat (map fst (moved @ after)) @ [(PROMPT, p), (NL, n)], [])"
  shows "parse ucd text1 False = Inr (map snd (before @ moved @ after), Some rr)
    \<and> parse ucd text2 False = Inr (map snd (before @ moved @ after), Some rr)"
proof
  from assms(1) have 1: "\<forall>b \<in> set ((before @ moved) @ after). oob_block b" by simp
  from lenient_parse_blocks [OF 1 assms(2) assms(3)]
  show "parse ucd text1 False = Inr (map snd (before @ moved @ after), Some rr)" by simp
  from assms(1) have 2: "\<forall>b \<in> set (before @ (moved @ after)). oob_block b" by simp
  from lenient_parse_blocks [OF 2 assms(2) assms(4)]
  show "parse ucd text2 False = Inr (map snd (before @ moved @ after), Some rr)" by simp
qed

theorem lenient_records_one_list_witness:
  "oob_block ([(TILDE, Txt ''~''), (CSTRING, Txt ''a''), (NL, Txt ''\<newline>'')],
              StreamRecord (Txt ''~'') (Txt ''a''))
   \<and> (\<forall>rest. result_record ((CARET, Txt ''^'') # [(STRING, Txt ''done''), (NL, Txt ''\<newline>'')] @ rest)
          = Inr ((None, Txt ''done'', None), rest))
   \<and> parse Map.empty ''~\"a\"\<newline>^done\<newline>(gdb)\<newline>'' False =
        Inr ([StreamRecord (Txt ''~'') (Txt ''a'')], Some (None, Txt ''done'', None))
   \<and> parse Map.empty ''^done\<newline>~\"a\"\<newline>(gdb)\<newline>'' False =
        Inr ([StreamRecord (Txt ''~'') (Txt ''a'')], Some (None, Txt ''done'', None))"
proof -
  let ?blk = "([(TILDE, Txt ''~''), (CSTRING, Txt ''a''), (NL, Txt ''\<newline>'')],
      StreamRecord (Txt ''~'') (Txt ''a''))"
  let ?rtoks = "[(STRING, Txt ''done''), (NL, Txt ''\<newline>'')]"
  have 1: "\<forall>b \<in> set ([] @ [?blk] @ []). oob_block b"
    by (simp add: oob_block_def out_of_band_record_def stream_output_def expect_Cons
        p_cstring_def accept_def)
  have 2: "\<forall>rest. result_record ((CARET, Txt ''^'') # ?rtoks @ rest)
      = Inr ((None, Txt ''done'', None), rest)"
    by (simp add: result_record_def token_maybe_def accept_def expect_Cons p_string_def)
  have 3: "scan Map.empty ''~\"a\"\<newline>^done\<newline>(gdb)\<newline>'' =
      Inr (concat (map fst ([] @ [?blk])) @ (CARET, Txt ''^'') # ?rtoks
        @ concat (map fst []) @ [(PROMPT, Txt ''(gdb)''), (NL, Txt ''\<newline>'')], [])"
    by code_simp
  have 4: "scan Map.empty ''^done\<newline>~\"a\"\<newline>(gdb)\<newline>'' =
      Inr (concat (map fst []) @ (CARET, Txt ''^'') # ?rtoks
        @ concat (map fst ([?blk] @ [])) @ [(PROMPT, Txt ''(gdb)''), (NL, Txt ''\<newline>'')], [])"
    by code_simp
  from lenient_records_one_list [OF 1 2 3 4] 1 2 show ?thesis
    by simp
qed

end
